theory Spec2Isabelle
  imports Main "HOL-Library.Word"
begin

section \<open>JavaScript strings\<close>

text \<open>
  A JavaScript string is a sequence of UTF-16 code units, and \<open>.length\<close> counts code
  units, so a string is a list of 16-bit words. Literals of the source are written in
  ASCII and converted by \<open>js\<close>.
\<close>

type_synonym jsstring = "16 word list"

definition js :: "string \<Rightarrow> jsstring" where
  "js s = map of_char s"

text \<open>A string is truthy in a condition exactly when it is not empty.\<close>

definition truthy :: "jsstring \<Rightarrow> bool" where
  "truthy s = (s \<noteq> [])"

text \<open>
  \<open>String.prototype.trim\<close> strips the ECMAScript WhiteSpace and LineTerminator code
  points from both ends: TAB, LF, VT, FF, CR, SPACE, NBSP, the Unicode space separators
  and BOM.
\<close>

definition is_white_space :: "16 word \<Rightarrow> bool" where
  "is_white_space c =
     (c = 0x9 \<or> c = 0xA \<or> c = 0xB \<or> c = 0xC \<or> c = 0xD \<or> c = 0x20 \<or> c = 0xA0
      \<or> c = 0x1680 \<or> (0x2000 \<le> c \<and> c \<le> 0x200A) \<or> c = 0x2028 \<or> c = 0x2029
      \<or> c = 0x202F \<or> c = 0x205F \<or> c = 0x3000 \<or> c = 0xFEFF)"

definition trim :: "jsstring \<Rightarrow> jsstring" where
  "trim s = rev (dropWhile is_white_space (rev (dropWhile is_white_space s)))"

text \<open>
  \<open>String.prototype.split\<close> with a string separator: the text is scanned from the
  left; at each match of the separator the piece collected so far is emitted and the scan
  resumes after the match; the rest is the last piece. An empty separator splits into
  code units.
\<close>

function split_from :: "jsstring \<Rightarrow> jsstring \<Rightarrow> jsstring \<Rightarrow> jsstring list" where
  "split_from sep cur [] = [cur]"
| "split_from sep cur (c # cs) =
     (if sep \<noteq> [] \<and> take (length sep) (c # cs) = sep
      then cur # split_from sep [] (drop (length sep) (c # cs))
      else split_from sep (cur @ [c]) cs)"
  by pat_completeness auto
termination
  by (relation "measure (\<lambda>(sep, cur, s). length s)") auto

definition js_split :: "jsstring \<Rightarrow> jsstring \<Rightarrow> jsstring list" where
  "js_split sep s = (if sep = [] then map (\<lambda>c. [c]) s else split_from sep [] s)"

text \<open>\<open>Array.prototype.join\<close> on an array of strings.\<close>

fun js_join :: "jsstring \<Rightarrow> jsstring list \<Rightarrow> jsstring" where
  "js_join sep [] = []"
| "js_join sep [x] = x"
| "js_join sep (x # y # ys) = x @ sep @ js_join sep (y # ys)"

text \<open>\<open>String.prototype.includes\<close>: the needle occurs at some position.\<close>

fun js_includes :: "jsstring \<Rightarrow> jsstring \<Rightarrow> bool" where
  "js_includes needle [] = (needle = [])"
| "js_includes needle (c # cs) =
     (take (length needle) (c # cs) = needle \<or> js_includes needle cs)"

text \<open>The number of positions of a text at which a given string occurs.\<close>

fun occurrences :: "jsstring \<Rightarrow> jsstring \<Rightarrow> nat" where
  "occurrences sep [] = 0"
| "occurrences sep (c # cs) =
     (if take (length sep) (c # cs) = sep then 1 else 0) + occurrences sep cs"

text \<open>\<open>a || b\<close> on an optional string: the first operand when it is truthy.\<close>

definition or_else :: "jsstring option \<Rightarrow> jsstring \<Rightarrow> jsstring" where
  "or_else a b = (case a of None \<Rightarrow> b | Some t \<Rightarrow> if truthy t then t else b)"

text \<open>The outcome of an awaited promise.\<close>

datatype 'a promise = Resolves 'a | Rejects

section \<open>Chat controller (ChatBot.tsx)\<close>

subsection \<open>Data\<close>

datatype role = User | Model

type_synonym date = int

record ChatMessage =
  role :: role
  msgText :: jsstring
  timestamp :: date

text \<open>
  The component state: the three \<open>useState\<close> cells and whether \<open>chatRef.current\<close>
  holds a conversation handle.
\<close>

record chat_state =
  messages :: "ChatMessage list"
  input :: jsstring
  isTyping :: bool
  chatRef :: bool

text \<open>
  What the collaborator does with one \<open>sendMessageStream\<close> call: the awaited call
  throws, or it yields a stream of chunks that completes or throws after them. The
  \<open>text\<close> of a chunk is a string or undefined.
\<close>

type_synonym chunk = "jsstring option"

datatype stream_end = Completes | StreamThrows

datatype stream_reply = OpenThrows | Opened "chunk list" stream_end

text \<open>The surroundings of one \<open>handleSend\<close>: the collaborator and the clock readings.\<close>

record send_env =
  reply :: stream_reply
  now_user :: date
  now_placeholder :: date
  now_apology :: date

subsection \<open>Effects\<close>

text \<open>
  The three functional updaters that the component passes to \<open>setMessages\<close>, and the
  plain value set on mount. \<open>OverwriteLastText\<close> is the updater of the streaming loop,
  \<open>prev => { newArr = [...prev]; newArr[newArr.length - 1].text = fullResponseText;
  return newArr }\<close>: a closure over the variable \<open>fullResponseText\<close>, which it reads when
  React applies it, not when \<open>setMessages\<close> is called.
\<close>

datatype updater =
  Append ChatMessage
  | OverwriteLastText
  | Replace "ChatMessage list"

text \<open>
  Applying an updater, given the value that \<open>fullResponseText\<close> has at that moment. On
  an empty array the overwrite would throw inside the updater; \<open>handleSend\<close> only
  issues it after the placeholder has been appended, and React applies updaters in the
  order of their calls, so the index is in range.
\<close>

fun apply_updater :: "jsstring \<Rightarrow> updater \<Rightarrow> ChatMessage list \<Rightarrow> ChatMessage list" where
  "apply_updater full (Append m) prev = prev @ [m]"
| "apply_updater full OverwriteLastText prev =
     (if prev = [] then prev
      else prev[length prev - 1 := (prev ! (length prev - 1))\<lparr>msgText := full\<rparr>])"
| "apply_updater full (Replace ms) prev = ms"

text \<open>
  Everything \<open>handleSend\<close> and the mount effect do, in program order: calls of the
  state setters, the assignment \<open>fullResponseText += c.text\<close>, the creation of the
  conversation handle, the outbound request, the console.
\<close>

datatype chat_effect =
  SetMessages updater
  | SetInput jsstring
  | SetIsTyping bool
  | Accumulate jsstring
  | CreateChat
  | SendMessageStream jsstring
  | ChatConsoleError jsstring

text \<open>The calls of a state setter: what React queues.\<close>

fun is_state_update :: "chat_effect \<Rightarrow> bool" where
  "is_state_update (SetMessages u) = True"
| "is_state_update (SetInput v) = True"
| "is_state_update (SetIsTyping b) = True"
| "is_state_update e = False"

text \<open>
  React applying one queued update to the state, with \<open>fullResponseText\<close> as it is
  then.
\<close>

fun apply_effect :: "jsstring \<Rightarrow> chat_state \<Rightarrow> chat_effect \<Rightarrow> chat_state" where
  "apply_effect full s (SetMessages u) = s\<lparr>messages := apply_updater full u (messages s)\<rparr>"
| "apply_effect full s (SetInput v) = s\<lparr>input := v\<rparr>"
| "apply_effect full s (SetIsTyping b) = s\<lparr>isTyping := b\<rparr>"
| "apply_effect full s e = s"

subsection \<open>Execution\<close>

text \<open>
  A running handler and React side by side: the state React has committed, the handler's
  variable \<open>fullResponseText\<close> (declared as the empty string), the updates that are
  queued, and the log of the updates React has applied, each with the value of
  \<open>fullResponseText\<close> it was applied under.
\<close>

record machine =
  committed :: chat_state
  fullResponseText :: jsstring
  queue :: "chat_effect list"
  applied :: "(chat_effect \<times> jsstring) list"

definition start :: "chat_state \<Rightarrow> machine" where
  "start s = \<lparr>committed = s, fullResponseText = [], queue = [], applied = []\<rparr>"

text \<open>
  The handler performs one effect: a setter call is queued, the assignment changes the
  variable, the handle is stored in the ref at once.
\<close>

fun perform :: "chat_effect \<Rightarrow> machine \<Rightarrow> machine" where
  "perform (SetMessages u) m = m\<lparr>queue := queue m @ [SetMessages u]\<rparr>"
| "perform (SetInput v) m = m\<lparr>queue := queue m @ [SetInput v]\<rparr>"
| "perform (SetIsTyping b) m = m\<lparr>queue := queue m @ [SetIsTyping b]\<rparr>"
| "perform (Accumulate t) m = m\<lparr>fullResponseText := fullResponseText m @ t\<rparr>"
| "perform CreateChat m = m\<lparr>committed := (committed m)\<lparr>chatRef := True\<rparr>\<rparr>"
| "perform (SendMessageStream x) m = m"
| "perform (ChatConsoleError x) m = m"

text \<open>React applies the oldest queued update, if there is one.\<close>

definition react :: "machine \<Rightarrow> machine" where
  "react m =
     (case queue m of
        [] \<Rightarrow> m
      | u # q \<Rightarrow>
          m\<lparr>committed := apply_effect (fullResponseText m) (committed m) u,
            queue := q,
            applied := applied m @ [(u, fullResponseText m)]\<rparr>)"

definition flush :: "nat \<Rightarrow> machine \<Rightarrow> machine" where
  "flush k m = (react ^^ k) m"

text \<open>
  A schedule says how many queued updates React applies after each effect of the handler
  (none once the list is used up). \<open>steps\<close> runs the handler under a schedule;
  \<open>exec\<close> lets React apply whatever is still queued when the handler is done. Every
  way React may batch and delay the updates is one schedule: the list of ones applies
  each update at once, the empty list applies them all at the end.
\<close>

fun steps :: "nat list \<Rightarrow> machine \<Rightarrow> chat_effect list \<Rightarrow> machine" where
  "steps sch m [] = m"
| "steps sch m (e # es) =
     steps (tl sch) (flush (case sch of [] \<Rightarrow> 0 | k # ks \<Rightarrow> k) (perform e m)) es"

definition exec :: "nat list \<Rightarrow> machine \<Rightarrow> chat_effect list \<Rightarrow> machine" where
  "exec sch m es = flush (length (queue (steps sch m es))) (steps sch m es)"

definition run :: "nat list \<Rightarrow> chat_state \<Rightarrow> chat_effect list \<Rightarrow> chat_state" where
  "run sch s es = committed (exec sch (start s) es)"

definition run_log :: "nat list \<Rightarrow> chat_state \<Rightarrow> chat_effect list \<Rightarrow> (chat_effect \<times> jsstring) list" where
  "run_log sch s es = applied (exec sch (start s) es)"

text \<open>The state after a log of applied updates.\<close>

definition replay :: "chat_state \<Rightarrow> (chat_effect \<times> jsstring) list \<Rightarrow> chat_state" where
  "replay s l = foldl (\<lambda>s' (u, full). apply_effect full s' u) s l"

text \<open>
  The states right after each overwrite of the last message's text in a log, in order:
  the intermediate states of a streamed turn. What is rendered is some of these states, in
  this order.
\<close>

fun is_fragment_update :: "chat_effect \<Rightarrow> bool" where
  "is_fragment_update (SetMessages OverwriteLastText) = True"
| "is_fragment_update e = False"

fun after_updates :: "chat_state \<Rightarrow> (chat_effect \<times> jsstring) list \<Rightarrow> chat_state list" where
  "after_updates s [] = []"
| "after_updates s ((u, full) # l) =
     (if is_fragment_update u then [apply_effect full s u] else [])
       @ after_updates (apply_effect full s u) l"

text \<open>
  The legal steps of the transcript: it stays as it is, one entry is appended at the end,
  or the last entry, a model message, changes in its text only.
\<close>

definition appended :: "ChatMessage list \<Rightarrow> ChatMessage list \<Rightarrow> bool" where
  "appended old new = (length new = Suc (length old) \<and> take (length old) new = old)"

definition last_model_text_changed :: "ChatMessage list \<Rightarrow> ChatMessage list \<Rightarrow> bool" where
  "last_model_text_changed old new =
     (old \<noteq> [] \<and> length new = length old \<and> butlast new = butlast old
      \<and> role (last old) = Model \<and> role (last new) = Model
      \<and> timestamp (last new) = timestamp (last old))"

definition transcript_step :: "ChatMessage list \<Rightarrow> ChatMessage list \<Rightarrow> bool" where
  "transcript_step old new =
     (new = old \<or> appended old new \<or> last_model_text_changed old new)"

text \<open>Every update of a log, applied in order, takes the transcript a legal step.\<close>

fun append_only :: "chat_state \<Rightarrow> (chat_effect \<times> jsstring) list \<Rightarrow> bool" where
  "append_only s [] = True"
| "append_only s ((u, full) # l) =
     (transcript_step (messages s) (messages (apply_effect full s u))
      \<and> append_only (apply_effect full s u) l)"

text \<open>One event comes before the first occurrence of another in a list of effects.\<close>

definition precedes :: "chat_effect \<Rightarrow> chat_effect \<Rightarrow> chat_effect list \<Rightarrow> bool" where
  "precedes a b es = (a \<in> set (takeWhile (\<lambda>e. e \<noteq> b) es))"

subsection \<open>Mount\<close>

definition initial_chat_state :: chat_state where
  "initial_chat_state = \<lparr>messages = [], input = [], isTyping = False, chatRef = False\<rparr>"

definition greeting :: jsstring where
  "greeting = js (''Hello! I'' @ [CHR 0x27] @ ''m your Page Genius tutor. ''
     @ ''Do you have questions about a specific topic or problem?'')"

text \<open>The mount effect, which runs once, on the initial state.\<close>

definition mount :: "date \<Rightarrow> chat_effect list" where
  "mount now =
     [CreateChat,
      SetMessages (Replace [\<lparr>role = Model, msgText = greeting, timestamp = now\<rparr>])]"

subsection \<open>handleSend\<close>

definition apology :: jsstring where
  "apology = js (''I'' @ [CHR 0x27] @ ''m sorry, I'' @ [CHR 0x27]
     @ ''m having trouble connecting right now. Please try again.'')"

text \<open>
  The \<open>for await\<close> loop: for a chunk with a truthy text, the text is concatenated onto
  \<open>fullResponseText\<close> and \<open>setMessages\<close> is called with the overwriting updater; any
  other chunk is skipped.
\<close>

fun for_await :: "chunk list \<Rightarrow> chat_effect list" where
  "for_await [] = []"
| "for_await (c # cs) =
     (case c of
        None \<Rightarrow> for_await cs
      | Some t \<Rightarrow>
          if truthy t
          then Accumulate t # SetMessages OverwriteLastText # for_await cs
          else for_await cs)"

text \<open>What a stream has delivered: the texts of its chunks, concatenated.\<close>

definition received_text :: "chunk list \<Rightarrow> jsstring" where
  "received_text cs = concat (map (\<lambda>c. case c of None \<Rightarrow> [] | Some t \<Rightarrow> t) cs)"

definition placeholder :: "send_env \<Rightarrow> ChatMessage" where
  "placeholder env = \<lparr>role = Model, msgText = [], timestamp = now_placeholder env\<rparr>"

definition apology_message :: "send_env \<Rightarrow> ChatMessage" where
  "apology_message env = \<lparr>role = Model, msgText = apology, timestamp = now_apology env\<rparr>"

definition catch_block :: "send_env \<Rightarrow> chat_effect list" where
  "catch_block env =
     [ChatConsoleError (js ''Chat error''), SetMessages (Append (apology_message env))]"

definition try_block :: "send_env \<Rightarrow> ChatMessage \<Rightarrow> chat_effect list" where
  "try_block env userMsg =
     SendMessageStream (msgText userMsg) #
     (case reply env of
        OpenThrows \<Rightarrow> catch_block env
      | Opened chunks fin \<Rightarrow>
          SetMessages (Append (placeholder env)) # for_await chunks
            @ (case fin of Completes \<Rightarrow> [] | StreamThrows \<Rightarrow> catch_block env))"

definition user_message :: "send_env \<Rightarrow> chat_state \<Rightarrow> ChatMessage" where
  "user_message env s = \<lparr>role = User, msgText = input s, timestamp = now_user env\<rparr>"

definition handleSend :: "send_env \<Rightarrow> chat_state \<Rightarrow> chat_effect list" where
  "handleSend env s =
     (if \<not> truthy (trim (input s)) \<or> \<not> chatRef s then []
      else
        let userMsg = user_message env s
        in [SetMessages (Append userMsg), SetInput [], SetIsTyping True]
           @ try_block env userMsg
           @ [SetIsTyping False])"

subsection \<open>Reading an execution\<close>

text \<open>What the assignments of a list of effects add to \<open>fullResponseText\<close>.\<close>

definition accumulated :: "chat_effect list \<Rightarrow> jsstring" where
  "accumulated es = concat (map (\<lambda>e. case e of Accumulate t \<Rightarrow> t | _ \<Rightarrow> []) es)"

text \<open>The values under which the overwrites of a log were applied.\<close>

definition ov_values :: "(chat_effect \<times> jsstring) list \<Rightarrow> jsstring list" where
  "ov_values l = map snd (filter (\<lambda>x. is_fragment_update (fst x)) l)"

text \<open>
  No overwrite has yet written a text that is out of date: one is still queued, none has
  been applied, or the last one applied read the present value of the variable.
\<close>

definition fresh :: "machine \<Rightarrow> bool" where
  "fresh m =
     (SetMessages OverwriteLastText \<in> set (queue m)
      \<or> ov_values (applied m) = []
      \<or> last (ov_values (applied m)) = fullResponseText m)"

text \<open>
  The values read by the applied updates never get shorter, and none is longer than the
  variable is now.
\<close>

definition growing :: "machine \<Rightarrow> bool" where
  "growing m =
     (sorted (map (\<lambda>x. length (snd x)) (applied m))
      \<and> list_all (\<lambda>x. length (snd x) \<le> length (fullResponseText m)) (applied m))"

text \<open>The committed state is the start state with the log replayed, up to the ref.\<close>

definition replayed :: "chat_state \<Rightarrow> machine \<Rightarrow> bool" where
  "replayed s m = (committed m = (replay s (applied m))\<lparr>chatRef := chatRef (committed m)\<rparr>)"

text \<open>The updates that append a message or set another cell.\<close>

fun harmless :: "chat_effect \<Rightarrow> bool" where
  "harmless (SetMessages OverwriteLastText) = False"
| "harmless (SetMessages (Replace ms)) = False"
| "harmless e = True"

text \<open>The state updates of the catch block, when the stream ends by throwing.\<close>

definition failure_updates :: "send_env \<Rightarrow> stream_end \<Rightarrow> chat_effect list" where
  "failure_updates env fin =
     (case fin of Completes \<Rightarrow> [] | StreamThrows \<Rightarrow> [SetMessages (Append (apology_message env))])"

subsection \<open>A sample turn\<close>

definition s0 :: chat_state where
  "s0 = \<lparr>messages = [], input = js ''hi'', isTyping = False, chatRef = True\<rparr>"

definition e0 :: "stream_reply \<Rightarrow> send_env" where
  "e0 r = \<lparr>reply = r, now_user = 1, now_placeholder = 2, now_apology = 3\<rparr>"

text \<open>
  Two schedules for the sample turn: each update applied right after its setter call, and
  every update applied at the end.
\<close>

definition eager :: "nat list" where
  "eager = [1, 1, 1, 1, 1, 1, 1, 1, 1, 1]"

definition lazy :: "nat list" where
  "lazy = []"

section \<open>Analyzer (second component of ImageGenerator.tsx)\<close>

subsection \<open>handleAnalyze\<close>

record jsfile =
  fileType :: jsstring

text \<open>
  The state cells of the component (\<open>selected_file\<close> is the cell \<open>file\<close>), and the
  lines written by \<open>console.error\<close>.
\<close>

record analyzer_state =
  selected_file :: "jsfile option"
  previewUrl :: "jsstring option"
  isAnalyzing :: bool
  result :: "jsstring option"
  console :: "jsstring list"

text \<open>
  The surroundings of one \<open>handleAnalyze\<close>: whether \<open>blobToBase64\<close> resolves
  (with the encoded payload), and whether the awaited \<open>generateContent\<close> resolves; the
  \<open>text\<close> of a response is a string or undefined.
\<close>

record analyze_env =
  blobToBase64 :: "jsstring promise"
  generateContent :: "jsstring option promise"

definition analysis_error :: jsstring where
  "analysis_error =
     js ''Sorry, I encountered an error analyzing the image. Please try again.''"

definition analyze_catch :: "analyzer_state \<Rightarrow> analyzer_state" where
  "analyze_catch s =
     s\<lparr>console := console s @ [js ''Analysis failed''], result := Some analysis_error\<rparr>"

definition analyze_try :: "analyze_env \<Rightarrow> analyzer_state \<Rightarrow> analyzer_state" where
  "analyze_try env s =
     (case blobToBase64 env of
        Rejects \<Rightarrow> analyze_catch s
      | Resolves base64Data \<Rightarrow>
          (case generateContent env of
             Rejects \<Rightarrow> analyze_catch s
           | Resolves response_text \<Rightarrow>
               (case response_text of
                  None \<Rightarrow> s
                | Some t \<Rightarrow> if truthy t then s\<lparr>result := Some t\<rparr> else s)))"

definition handleAnalyze :: "analyze_env \<Rightarrow> analyzer_state \<Rightarrow> analyzer_state" where
  "handleAnalyze env s =
     (case selected_file s of
        None \<Rightarrow> s
      | Some f \<Rightarrow>
          (analyze_try env (s\<lparr>isAnalyzing := True, result := None\<rparr>))
            \<lparr>isAnalyzing := False\<rparr>)"

subsection \<open>Rendering the result\<close>

record rendered_section =
  title :: jsstring
  body :: jsstring

definition delimiter :: jsstring where
  "delimiter = js ''## ''"

definition newline :: jsstring where
  "newline = [0xA]"

text \<open>
  The callback of \<open>map\<close>: null at index 0, otherwise the segment is split at line
  feeds and destructured into \<open>[title, ...content]\<close>. \<open>split\<close> with a non-empty
  separator returns at least one piece, so the empty case of the destructuring does not
  arise.
\<close>

definition render_section :: "nat \<times> jsstring \<Rightarrow> rendered_section option" where
  "render_section = (\<lambda>(index, segment).
     if index = 0 then None
     else (case js_split newline segment of
             [] \<Rightarrow> None
           | t # content \<Rightarrow>
               Some \<lparr>title = trim t, body = trim (js_join newline content)\<rparr>))"

text \<open>
  The result panel renders only a truthy result; React drops the null entries of the
  mapped array, so the displayed sections are the remaining ones, in order.
\<close>

definition renderResult :: "jsstring option \<Rightarrow> rendered_section list" where
  "renderResult res =
     (case res of
        None \<Rightarrow> []
      | Some r \<Rightarrow>
          if truthy r
          then List.map_filter render_section (enumerate 0 (js_split delimiter r))
          else [])"

text \<open>
  A segment seen as lines: the text before its first line feed, and the text after that
  line feed.
\<close>

definition first_line :: "jsstring \<Rightarrow> jsstring" where
  "first_line segment = takeWhile (\<lambda>c. c \<noteq> 0xA) segment"

definition after_first_line :: "jsstring \<Rightarrow> jsstring" where
  "after_first_line segment = drop (Suc (length (first_line segment))) segment"

definition titled :: "jsstring \<Rightarrow> rendered_section" where
  "titled segment =
     \<lparr>title = trim (first_line segment), body = trim (after_first_line segment)\<rparr>"

subsection \<open>A sample analysis\<close>

definition a0 :: analyzer_state where
  "a0 = \<lparr>selected_file = Some \<lparr>fileType = js ''image/png''\<rparr>, previewUrl = Some (js ''blob:1''),
          isAnalyzing = False, result = None, console = []\<rparr>"

definition two_sections :: jsstring where
  "two_sections = js ''## 1. Q'' @ newline @ js ''2+2?'' @ newline @ js ''## 2. V'' @ newline @ js ''4''"

definition answers :: "jsstring option \<Rightarrow> analyze_env" where
  "answers t = \<lparr>blobToBase64 = Resolves (js ''AAAA''), generateContent = Resolves t\<rparr>"

section \<open>Image generator (first component of ImageGenerator.tsx)\<close>

subsection \<open>Data\<close>

datatype ImageResolution = RES_1K | RES_2K | RES_4K

record Blob =
  mimeType :: "jsstring option"
  data :: "jsstring option"

record Part =
  inlineData :: "Blob option"
  partText :: "jsstring option"

record Content =
  parts :: "Part list option"

record Candidate =
  content :: "Content option"

record GenerateContentResponse =
  candidates :: "Candidate list option"

record gen_state =
  prompt :: jsstring
  resolution :: ImageResolution
  generatedImages :: "jsstring list"
  isLoading :: bool
  hasApiKey :: bool

text \<open>
  The optional host capability \<open>window.aistudio\<close>: each method may be missing, and a
  call of it resolves or rejects.
\<close>

record AIStudio =
  hasSelectedApiKey :: "bool promise option"
  openSelectKey :: "unit promise option"

text \<open>
  The awaited image request resolves with a response or throws. A thrown value is
  represented by what \<open>JSON.stringify\<close> makes of it: a string, or nothing when
  \<open>JSON.stringify\<close> returns undefined or throws itself.
\<close>

datatype gen_outcome = Responds GenerateContentResponse | Throws "jsstring option"

record gen_env =
  aistudio :: "AIStudio option"
  request :: gen_outcome

subsection \<open>Effects\<close>

text \<open>
  What the component does, in program order: state updates, calls of the collaborator and
  of the host, the console, the call of \<open>handleConnectKey\<close>, and an exception that
  leaves an async function.
\<close>

datatype gen_effect =
  SetIsLoading bool
  | SetGeneratedImages "jsstring list"
  | SetHasApiKey bool
  | GenerateContent jsstring ImageResolution
  | ConsoleError jsstring
  | CallHandleConnectKey
  | CallOpenSelectKey
  | CallHasSelectedApiKey
  | Uncaught

fun gen_apply :: "gen_state \<Rightarrow> gen_effect \<Rightarrow> gen_state" where
  "gen_apply s (SetIsLoading b) = s\<lparr>isLoading := b\<rparr>"
| "gen_apply s (SetGeneratedImages imgs) = s\<lparr>generatedImages := imgs\<rparr>"
| "gen_apply s (SetHasApiKey b) = s\<lparr>hasApiKey := b\<rparr>"
| "gen_apply s (GenerateContent p r) = s"
| "gen_apply s (ConsoleError m) = s"
| "gen_apply s CallHandleConnectKey = s"
| "gen_apply s CallOpenSelectKey = s"
| "gen_apply s CallHasSelectedApiKey = s"
| "gen_apply s Uncaught = s"

definition gen_run :: "gen_state \<Rightarrow> gen_effect list \<Rightarrow> gen_state" where
  "gen_run s es = foldl gen_apply s es"

subsection \<open>The key gate\<close>

definition initial_gen_state :: gen_state where
  "initial_gen_state =
     \<lparr>prompt = [], resolution = RES_1K, generatedImages = [], isLoading = False,
      hasApiKey = True\<rparr>"

definition checkApiKey :: "gen_env \<Rightarrow> gen_effect list" where
  "checkApiKey env =
     (case aistudio env of
        None \<Rightarrow> []
      | Some a \<Rightarrow>
          (case hasSelectedApiKey a of
             None \<Rightarrow> []
           | Some p \<Rightarrow>
               CallHasSelectedApiKey #
               (case p of Resolves hasKey \<Rightarrow> [SetHasApiKey hasKey] | Rejects \<Rightarrow> [Uncaught])))"

text \<open>
  \<open>handleConnectKey\<close> in two parts: up to its \<open>await\<close>, and the continuation once the
  host's promise has settled. The button's handler runs one after the other.
\<close>

definition connect_call :: "gen_env \<Rightarrow> gen_effect list" where
  "connect_call env =
     (case aistudio env of
        None \<Rightarrow> []
      | Some a \<Rightarrow> (case openSelectKey a of None \<Rightarrow> [] | Some p \<Rightarrow> [CallOpenSelectKey]))"

definition connect_resume :: "gen_env \<Rightarrow> gen_effect list" where
  "connect_resume env =
     (case aistudio env of
        None \<Rightarrow> []
      | Some a \<Rightarrow>
          (case openSelectKey a of
             None \<Rightarrow> []
           | Some p \<Rightarrow> (case p of Resolves u \<Rightarrow> [SetHasApiKey True] | Rejects \<Rightarrow> [Uncaught])))"

definition handleConnectKey :: "gen_env \<Rightarrow> gen_effect list" where
  "handleConnectKey env = connect_call env @ connect_resume env"

subsection \<open>handleGenerate\<close>

text \<open>The loop over the parts, pushing a data URL for each part with a payload.\<close>

fun push_images :: "jsstring list \<Rightarrow> Part list \<Rightarrow> jsstring list" where
  "push_images images [] = images"
| "push_images images (p # ps) =
     push_images
       (case inlineData p of
          None \<Rightarrow> images
        | Some b \<Rightarrow>
            (case data b of
               None \<Rightarrow> images
             | Some d \<Rightarrow>
                 if truthy d
                 then images @ [js ''data:'' @ or_else (mimeType b) (js ''image/png'')
                                  @ js '';base64,'' @ d]
                 else images))
       ps"

text \<open>\<open>response.candidates?.[0]?.content?.parts\<close>\<close>

definition first_candidate_parts :: "GenerateContentResponse \<Rightarrow> Part list option" where
  "first_candidate_parts response =
     (case candidates response of
        None \<Rightarrow> None
      | Some cs \<Rightarrow>
          (case cs of
             [] \<Rightarrow> None
           | c # rest \<Rightarrow> (case content c of None \<Rightarrow> None | Some ct \<Rightarrow> parts ct)))"

definition collect_images :: "GenerateContentResponse \<Rightarrow> jsstring list" where
  "collect_images response =
     (case first_candidate_parts response of
        None \<Rightarrow> []
      | Some ps \<Rightarrow> push_images [] ps)"

definition auth_marker :: jsstring where
  "auth_marker = js ''Requested entity was not found''"

text \<open>
  The catch block. \<open>handleConnectKey()\<close> is called without \<open>await\<close>: it runs up to
  its own \<open>await\<close>, the \<open>finally\<close> block follows, and its continuation comes last.
  When the thrown value has no serialisation, \<open>.includes\<close> (or \<open>JSON.stringify\<close>)
  throws out of the catch block; the \<open>finally\<close> block still runs.
\<close>

definition gen_catch :: "gen_env \<Rightarrow> jsstring option \<Rightarrow> gen_effect list" where
  "gen_catch env err =
     ConsoleError (js ''Image generation failed'') #
     (case err of
        None \<Rightarrow> [SetIsLoading False, Uncaught]
      | Some serialized \<Rightarrow>
          if js_includes auth_marker serialized
          then [SetHasApiKey False, CallHandleConnectKey] @ connect_call env
                 @ [SetIsLoading False] @ connect_resume env
          else [SetIsLoading False])"

definition handleGenerate :: "gen_env \<Rightarrow> gen_state \<Rightarrow> gen_effect list" where
  "handleGenerate env s =
     (if \<not> truthy (trim (prompt s)) then []
      else
        [SetIsLoading True, SetGeneratedImages [],
         GenerateContent (prompt s) (resolution s)]
        @ (case request env of
             Responds response \<Rightarrow>
               [SetGeneratedImages (collect_images response), SetIsLoading False]
           | Throws err \<Rightarrow> gen_catch env err))"

subsection \<open>Reading a response and a failure\<close>

text \<open>
  The parts the loop runs over, the parts that carry inline data, those among them whose
  payload is a non-empty string, and the data URL made from such a part.
\<close>

definition response_parts :: "GenerateContentResponse \<Rightarrow> Part list" where
  "response_parts response =
     (case first_candidate_parts response of None \<Rightarrow> [] | Some ps \<Rightarrow> ps)"

definition has_inline_data :: "Part \<Rightarrow> bool" where
  "has_inline_data p = (case inlineData p of None \<Rightarrow> False | Some b \<Rightarrow> True)"

definition has_payload :: "Part \<Rightarrow> bool" where
  "has_payload p =
     (case inlineData p of
        None \<Rightarrow> False
      | Some b \<Rightarrow> (case data b of None \<Rightarrow> False | Some d \<Rightarrow> truthy d))"

definition image_url :: "Part \<Rightarrow> jsstring" where
  "image_url p =
     (case inlineData p of
        None \<Rightarrow> []
      | Some b \<Rightarrow>
          js ''data:'' @ or_else (mimeType b) (js ''image/png'') @ js '';base64,''
            @ or_else (data b) [])"

text \<open>
  The thrown value reads as an authentication failure: it has a serialisation, and the
  marker occurs in it.
\<close>

definition auth_failure :: "jsstring option \<Rightarrow> bool" where
  "auth_failure err = (case err of None \<Rightarrow> False | Some serialized \<Rightarrow> js_includes auth_marker serialized)"

definition request_auth_failure :: "gen_outcome \<Rightarrow> bool" where
  "request_auth_failure outcome =
     (case outcome of Responds response \<Rightarrow> False | Throws err \<Rightarrow> auth_failure err)"

text \<open>The host is present and has \<open>openSelectKey\<close>.\<close>

definition host_offers_connect :: "gen_env \<Rightarrow> bool" where
  "host_offers_connect env =
     (case aistudio env of
        None \<Rightarrow> False
      | Some a \<Rightarrow> (case openSelectKey a of None \<Rightarrow> False | Some p \<Rightarrow> True))"

text \<open>The host has \<open>openSelectKey\<close>, and the call resolves.\<close>

definition connect_succeeds :: "gen_env \<Rightarrow> bool" where
  "connect_succeeds env =
     (case aistudio env of
        None \<Rightarrow> False
      | Some a \<Rightarrow>
          (case openSelectKey a of
             None \<Rightarrow> False
           | Some p \<Rightarrow> (case p of Resolves u \<Rightarrow> True | Rejects \<Rightarrow> False)))"

subsection \<open>Sample requests\<close>

definition g0 :: gen_state where
  "g0 = initial_gen_state\<lparr>prompt := js ''a volcano''\<rparr>"

definition png_part :: "jsstring option \<Rightarrow> Part" where
  "png_part d = \<lparr>inlineData = Some \<lparr>mimeType = Some (js ''image/png''), data = d\<rparr>, partText = None\<rparr>"

definition text_part :: Part where
  "text_part = \<lparr>inlineData = None, partText = Some (js ''Here it is'')\<rparr>"

definition with_parts :: "Part list \<Rightarrow> GenerateContentResponse" where
  "with_parts ps = \<lparr>candidates = Some [\<lparr>content = Some \<lparr>parts = Some ps\<rparr>\<rparr>]\<rparr>"

definition not_found :: jsstring where
  "not_found = js ''{\"message\":\"Requested entity was not found.\"}''"

definition host :: AIStudio where
  "host = \<lparr>hasSelectedApiKey = Some (Resolves True), openSelectKey = Some (Resolves ())\<rparr>"

section \<open>JavaScript strings: properties\<close>

text \<open>\<open>js_includes\<close> holds exactly when the needle is a contiguous part of the text.\<close>

lemma js_includes_iff: "js_includes needle hay = (\<exists>pre post. hay = pre @ needle @ post)"
proof (induction hay)
  case Nil
  then show ?case by auto
next
  case (Cons c cs)
  show ?case
  proof
    assume "js_includes needle (c # cs)"
    then consider "take (length needle) (c # cs) = needle" | "js_includes needle cs"
      by auto
    then show "\<exists>pre post. c # cs = pre @ needle @ post"
    proof cases
      case 1
      then have "c # cs = [] @ needle @ drop (length needle) (c # cs)"
        using append_take_drop_id [of "length needle" "c # cs"] by simp
      then show ?thesis by blast
    next
      case 2
      with Cons.IH obtain pre post where "cs = pre @ needle @ post" by blast
      then have "c # cs = (c # pre) @ needle @ post" by simp
      then show ?thesis by blast
    qed
  next
    assume "\<exists>pre post. c # cs = pre @ needle @ post"
    then obtain pre post where eq: "c # cs = pre @ needle @ post" by blast
    show "js_includes needle (c # cs)"
    proof (cases pre)
      case Nil
      with eq have "take (length needle) (c # cs) = needle" by simp
      then show ?thesis by simp
    next
      case (Cons p pre')
      with eq have "cs = pre' @ needle @ post" by simp
      with Cons.IH have "js_includes needle cs" by blast
      then show ?thesis by simp
    qed
  qed
qed

section \<open>Chat controller: properties\<close>

subsection \<open>Executions\<close>

lemma flush_0: "flush 0 m = m"
  by (simp add: flush_def)

lemma flush_Suc: "flush (Suc k) m = flush k (react m)"
  by (simp add: flush_def funpow_swap1)

lemma flush_inv:
  assumes "\<And>m. P m \<Longrightarrow> P (react m)" and "P m"
  shows "P (flush k m)"
  using assms(2) by (induction k arbitrary: m) (simp_all add: flush_0 flush_Suc assms(1))

lemma steps_inv:
  assumes "\<And>m. P m \<Longrightarrow> P (react m)"
    and "\<And>m e. e \<in> set es \<Longrightarrow> P m \<Longrightarrow> P (perform e m)"
    and "P m"
  shows "P (steps sch m es)"
  using assms(2,3)
proof (induction es arbitrary: sch m)
  case Nil
  then show ?case by simp
next
  case (Cons e es)
  have "P (perform e m)" using Cons.prems by simp
  with assms(1) have "P (flush (case sch of [] \<Rightarrow> 0 | k # ks \<Rightarrow> k) (perform e m))"
    by (rule flush_inv [where P = P])
  then show ?case using Cons.IH Cons.prems(1) by simp
qed

lemma exec_inv:
  assumes "\<And>m. P m \<Longrightarrow> P (react m)"
    and "\<And>m e. e \<in> set es \<Longrightarrow> P m \<Longrightarrow> P (perform e m)"
    and "P m"
  shows "P (exec sch m es)"
proof -
  have "P (steps sch m es)"
    using assms by (rule steps_inv [where P = P])
  with assms(1) show ?thesis
    unfolding exec_def by (rule flush_inv [where P = P])
qed

lemma steps_append:
  "steps sch m (es @ fs) = steps (drop (length es) sch) (steps sch m es) fs"
  by (induction es arbitrary: sch m) (simp_all add: drop_Suc)

text \<open>The queue\<close>

lemma queue_react: "queue (react m) = tl (queue m)"
  by (simp add: react_def split: list.splits)

lemma queue_flush: "queue (flush k m) = drop k (queue m)"
  by (induction k arbitrary: m) (simp_all add: flush_0 flush_Suc queue_react drop_Suc)

lemma queue_exec: "queue (exec sch m es) = []"
  by (simp add: exec_def queue_flush)

lemma queue_perform: "queue (perform e m) = queue m @ (if is_state_update e then [e] else [])"
  by (cases e) simp_all

lemma applied_perform: "applied (perform e m) = applied m"
  by (cases e) simp_all

lemma order_react: "map fst (applied (react m)) @ queue (react m) = map fst (applied m) @ queue m"
  by (simp add: react_def split: list.splits)

lemma order_flush: "map fst (applied (flush k m)) @ queue (flush k m) = map fst (applied m) @ queue m"
  by (induction k arbitrary: m) (simp_all add: flush_0 flush_Suc order_react)

lemma order_steps:
  "map fst (applied (steps sch m es)) @ queue (steps sch m es)
     = map fst (applied m) @ queue m @ filter is_state_update es"
proof (induction es arbitrary: sch m)
  case Nil
  then show ?case by simp
next
  case (Cons e es)
  show ?case
    by (simp add: Cons.IH order_flush queue_perform applied_perform)
qed

lemma log_order: "map fst (run_log sch s es) = filter is_state_update es"
proof -
  have "map fst (applied (exec sch (start s) es)) @ queue (exec sch (start s) es)
      = map fst (applied (start s)) @ queue (start s) @ filter is_state_update es"
    unfolding exec_def by (simp only: order_flush order_steps)
  then show ?thesis by (simp add: queue_exec run_log_def start_def)
qed

text \<open>The variable\<close>

lemma full_react: "fullResponseText (react m) = fullResponseText m"
  by (simp add: react_def split: list.splits)

lemma full_flush: "fullResponseText (flush k m) = fullResponseText m"
  by (induction k arbitrary: m) (simp_all add: flush_0 flush_Suc full_react)

lemma full_perform:
  "fullResponseText (perform e m) = fullResponseText m @ accumulated [e]"
  by (cases e) (simp_all add: accumulated_def)

lemma accumulated_Cons: "accumulated (e # es) = accumulated [e] @ accumulated es"
  by (simp add: accumulated_def)

lemma full_steps: "fullResponseText (steps sch m es) = fullResponseText m @ accumulated es"
proof (induction es arbitrary: sch m)
  case Nil
  then show ?case by (simp add: accumulated_def)
next
  case (Cons e es)
  show ?case
    by (simp add: Cons.IH full_flush full_perform accumulated_Cons [of e es])
qed

lemma full_exec: "fullResponseText (exec sch (start s) es) = accumulated es"
  by (simp add: exec_def full_flush full_steps start_def)

text \<open>The committed state is the replay of the log\<close>

lemma replay_snoc: "replay s (l @ [(u, v)]) = apply_effect v (replay s l) u"
  by (simp add: replay_def)

lemma apply_effect_chatRef:
  "apply_effect v (x\<lparr>chatRef := c\<rparr>) u = (apply_effect v x u)\<lparr>chatRef := c\<rparr>"
  by (cases u) simp_all

lemma chatRef_apply_effect: "chatRef (apply_effect v x u) = chatRef x"
  by (cases u) simp_all

lemma replayed_react: "replayed s m \<Longrightarrow> replayed s (react m)"
proof (cases "queue m")
  case Nil
  assume "replayed s m"
  then show ?thesis using Nil by (simp add: react_def)
next
  case (Cons u q)
  assume r: "replayed s m"
  let ?v = "fullResponseText m"
  have "committed (react m) = apply_effect ?v (committed m) u"
    and a: "applied (react m) = applied m @ [(u, ?v)]"
    using Cons by (simp_all add: react_def)
  moreover have "apply_effect ?v (committed m) u
      = (apply_effect ?v (replay s (applied m)) u)\<lparr>chatRef := chatRef (committed m)\<rparr>"
    using r apply_effect_chatRef [where v = "?v" and x = "replay s (applied m)"
        and c = "chatRef (committed m)" and u = u]
    by (simp add: replayed_def)
  ultimately show ?thesis
    by (simp add: replayed_def replay_snoc chatRef_apply_effect)
qed

lemma replayed_perform:
  assumes "replayed s m"
  shows "replayed s (perform e m)"
proof (cases "e = CreateChat")
  case True
  from assms have "(committed m)\<lparr>chatRef := True\<rparr>
      = ((replay s (applied m))\<lparr>chatRef := chatRef (committed m)\<rparr>)\<lparr>chatRef := True\<rparr>"
    by (simp add: replayed_def)
  then show ?thesis using True by (simp add: replayed_def)
next
  case False
  then have "committed (perform e m) = committed m"
    by (cases e) simp_all
  then show ?thesis using assms by (simp add: replayed_def applied_perform)
qed

lemma replayed_exec: "replayed s (exec sch (start s) es)"
proof (rule exec_inv [where P = "replayed s"])
  show "replayed s (start s)" by (simp add: replayed_def start_def replay_def)
qed (simp_all add: replayed_react replayed_perform)

lemma chatRef_react: "chatRef (committed (react m)) = chatRef (committed m)"
  by (simp add: react_def chatRef_apply_effect split: list.splits)

lemma chatRef_perform:
  "e \<noteq> CreateChat \<Longrightarrow> chatRef (committed (perform e m)) = chatRef (committed m)"
  by (cases e) simp_all

lemma chatRef_exec:
  assumes "CreateChat \<notin> set es"
  shows "chatRef (committed (exec sch (start s) es)) = chatRef s"
proof -
  have "chatRef (committed (exec sch (start s) es)) = chatRef s"
  proof (rule exec_inv [where P = "\<lambda>m. chatRef (committed m) = chatRef s"])
    show "chatRef (committed (react m)) = chatRef s" if "chatRef (committed m) = chatRef s" for m
      using that by (simp add: chatRef_react)
    show "chatRef (committed (perform e m)) = chatRef s"
      if "e \<in> set es" "chatRef (committed m) = chatRef s" for m e
    proof -
      from that(1) assms have "e \<noteq> CreateChat" by auto
      then show ?thesis using that(2) by (simp add: chatRef_perform)
    qed
    show "chatRef (committed (start s)) = chatRef s" by (simp add: start_def)
  qed
  then show ?thesis .
qed

lemma chatRef_replay: "chatRef (replay s l) = chatRef s"
  by (induction l rule: rev_induct) (simp_all add: replay_def chatRef_apply_effect split: prod.splits)

lemma run_replay:
  assumes "CreateChat \<notin> set es"
  shows "run sch s es = replay s (run_log sch s es)"
proof -
  have "committed (exec sch (start s) es)
      = (replay s (applied (exec sch (start s) es)))\<lparr>chatRef := chatRef s\<rparr>"
    using replayed_exec [of s sch es] chatRef_exec [OF assms, of sch s]
    by (simp add: replayed_def)
  moreover have "(replay s l)\<lparr>chatRef := chatRef s\<rparr> = replay s l" for l
    using chatRef_replay [of s l] by (cases "replay s l") simp
  ultimately show ?thesis by (simp add: run_def run_log_def)
qed

text \<open>Values only grow\<close>

lemma growing_react: "growing m \<Longrightarrow> growing (react m)"
  by (cases "queue m")
    (auto simp: growing_def react_def sorted_append list_all_iff)

lemma growing_perform: "growing m \<Longrightarrow> growing (perform e m)"
  by (cases e) (auto simp: growing_def list_all_iff)

lemma growing_exec: "growing (exec sch (start s) es)"
proof (rule exec_inv [where P = growing])
  show "growing (start s)" by (simp add: growing_def start_def)
qed (simp_all add: growing_react growing_perform)

lemma sorted_log: "sorted (map (\<lambda>x. length (snd x)) (run_log sch s es))"
  using growing_exec [of sch s es] by (simp add: growing_def run_log_def)

text \<open>The last overwrite reads the final accumulator\<close>

lemma is_fragment_update_iff: "is_fragment_update u = (u = SetMessages OverwriteLastText)"
  by (cases u rule: is_fragment_update.cases) simp_all

lemma fresh_react: "fresh m \<Longrightarrow> fresh (react m)"
proof (cases "queue m")
  case Nil
  assume "fresh m"
  then show ?thesis using Nil by (simp add: react_def)
next
  case (Cons u q)
  assume f: "fresh m"
  have q: "queue (react m) = q"
    and a: "applied (react m) = applied m @ [(u, fullResponseText m)]"
    and v: "fullResponseText (react m) = fullResponseText m"
    using Cons by (simp_all add: react_def)
  show ?thesis
  proof (cases "is_fragment_update u")
    case True
    then show ?thesis by (simp add: fresh_def a v ov_values_def)
  next
    case False
    then have "u \<noteq> SetMessages OverwriteLastText" by (simp add: is_fragment_update_iff)
    then show ?thesis
      using f False Cons by (auto simp: fresh_def q a v ov_values_def)
  qed
qed

lemma fresh_perform:
  assumes "accumulated [e] = []" and "fresh m"
  shows "fresh (perform e m)"
proof -
  have "fullResponseText (perform e m) = fullResponseText m"
    using assms(1) by (simp add: full_perform)
  moreover have "set (queue m) \<subseteq> set (queue (perform e m))"
    by (simp add: queue_perform)
  ultimately show ?thesis
    using assms(2) by (auto simp: fresh_def applied_perform)
qed

lemma fresh_overwrite: "fresh (perform (SetMessages OverwriteLastText) m)"
  by (simp add: fresh_def)

lemma fresh_flush: "fresh m \<Longrightarrow> fresh (flush k m)"
  by (rule flush_inv [where P = fresh]) (simp_all add: fresh_react)

lemma fresh_for_await: "fresh m \<Longrightarrow> fresh (steps sch m (for_await cs))"
proof (induction cs arbitrary: sch m)
  case Nil
  then show ?case by simp
next
  case (Cons c cs)
  show ?case
  proof (cases "\<exists>t. c = Some t \<and> truthy t")
    case True
    then obtain t where c: "c = Some t" "truthy t" by blast
    define m1 where "m1 = flush (case sch of [] \<Rightarrow> 0 | k # ks \<Rightarrow> k) (perform (Accumulate t) m)"
    define m2 where "m2 = flush (case tl sch of [] \<Rightarrow> 0 | k # ks \<Rightarrow> k)
      (perform (SetMessages OverwriteLastText) m1)"
    have "fresh m2"
      unfolding m2_def by (rule fresh_flush) (rule fresh_overwrite)
    then have "fresh (steps (tl (tl sch)) m2 (for_await cs))"
      by (rule Cons.IH)
    moreover have "steps sch m (for_await (c # cs)) = steps (tl (tl sch)) m2 (for_await cs)"
      using c by (simp add: m1_def m2_def)
    ultimately show ?thesis by simp
  next
    case False
    then have "for_await (c # cs) = for_await cs"
      by (cases c) auto
    then show ?thesis using Cons.IH [OF Cons.prems] by simp
  qed
qed

lemma fresh_steps:
  assumes "\<And>e. e \<in> set es \<Longrightarrow> accumulated [e] = []" and "fresh m"
  shows "fresh (steps sch m es)"
  by (rule steps_inv [where P = fresh]) (simp_all add: fresh_react fresh_perform assms)

text \<open>Logs\<close>

lemma replay_Nil: "replay s [] = s"
  by (simp add: replay_def)

lemma replay_Cons: "replay s ((u, v) # l) = replay (apply_effect v s u) l"
  by (simp add: replay_def)

lemma replay_append: "replay s (l1 @ l2) = replay (replay s l1) l2"
  by (simp add: replay_def)

lemma after_updates_append:
  "after_updates s (l1 @ l2) = after_updates s l1 @ after_updates (replay s l1) l2"
  by (induction l1 arbitrary: s) (auto simp: replay_Nil replay_Cons)

lemma append_only_append:
  "append_only s (l1 @ l2) = (append_only s l1 \<and> append_only (replay s l1) l2)"
  by (induction l1 arbitrary: s) (auto simp: replay_Nil replay_Cons)

lemma ov_values_append: "ov_values (l1 @ l2) = ov_values l1 @ ov_values l2"
  by (simp add: ov_values_def)

lemma step_same: "transcript_step ms ms"
  by (simp add: transcript_step_def)

lemma step_append: "transcript_step ms (ms @ [m])"
  by (simp add: transcript_step_def appended_def)

lemma harmless_step:
  "harmless u \<Longrightarrow> transcript_step (messages s) (messages (apply_effect v s u))"
  by (cases u rule: harmless.cases) (simp_all add: step_same step_append)

lemma harmless_apply: "harmless u \<Longrightarrow> apply_effect v s u = apply_effect [] s u"
  by (cases u rule: harmless.cases) simp_all

lemma harmless_not_fragment: "harmless u \<Longrightarrow> \<not> is_fragment_update u"
  by (cases u rule: harmless.cases) simp_all

lemma harmless_log:
  assumes "list_all harmless (map fst l)"
  shows "after_updates s l = []" and "append_only s l"
    and "replay s l = foldl (apply_effect []) s (map fst l)" and "ov_values l = []"
  using assms
proof (induction l arbitrary: s)
  case Nil
  {
    case 1 show ?case by simp
  next
    case 2 show ?case by simp
  next
    case 3 show ?case by (simp add: replay_Nil)
  next
    case 4 show ?case by (simp add: ov_values_def)
  }
next
  case (Cons x l)
  obtain u v where x: "x = (u, v)" by (cases x)
  {
    case 1
    then show ?case using Cons.IH(1) by (simp add: x harmless_not_fragment)
  next
    case 2
    then show ?case using Cons.IH(2) by (simp add: x harmless_step)
  next
    case 3
    then show ?case using Cons.IH(3) harmless_apply [of u v s] by (simp add: x replay_Cons)
  next
    case 4
    then show ?case using Cons.IH(4) by (simp add: x ov_values_def harmless_not_fragment)
  }
qed

lemma overwrite_last:
  "prev \<noteq> [] \<Longrightarrow>
   apply_updater full OverwriteLastText prev = butlast prev @ [(last prev)\<lparr>msgText := full\<rparr>]"
  by (cases prev rule: rev_cases) simp_all

lemma overwrite_log:
  assumes "list_all (\<lambda>u. u = SetMessages OverwriteLastText) (map fst l)"
    and "messages s = pre @ [m]" and "role m = Model"
  shows "replay s l = s\<lparr>messages := pre @ [m\<lparr>msgText := last (msgText m # map snd l)\<rparr>]\<rparr>"
    and "append_only s l"
    and "map (\<lambda>s'. length (msgText (last (messages s')))) (after_updates s l)
           = map (\<lambda>x. length (snd x)) l"
    and "ov_values l = map snd l"
  using assms
proof (induction l arbitrary: s m)
  case Nil
  {
    case 1 then show ?case by (simp add: replay_Nil)
  next
    case 2 show ?case by simp
  next
    case 3 show ?case by simp
  next
    case 4 show ?case by (simp add: ov_values_def)
  }
next
  case (Cons x l)
  obtain u v where x: "x = (u, v)" by (cases x)
  {
    fix s :: chat_state and m
    assume p: "list_all (\<lambda>u. u = SetMessages OverwriteLastText) (map fst (x # l))"
      "messages s = pre @ [m]" "role m = Model"
    then have u: "u = SetMessages OverwriteLastText"
      and rest: "list_all (\<lambda>u. u = SetMessages OverwriteLastText) (map fst l)"
      by (simp_all add: x)
    have ms2: "messages (apply_effect v s u) = pre @ [m\<lparr>msgText := v\<rparr>]"
      using p(2) by (simp add: u overwrite_last del: apply_updater.simps)
    have s2: "apply_effect v s u = s\<lparr>messages := pre @ [m\<lparr>msgText := v\<rparr>]\<rparr>"
      using ms2 by (simp add: u)
    have r2: "role (m\<lparr>msgText := v\<rparr>) = Model" using p(3) by simp
    note u rest ms2 s2 r2
  } note step = this
  {
    case 1
    note st = step [OF 1]
    have "replay (apply_effect v s u) l
        = (apply_effect v s u)\<lparr>messages :=
            pre @ [(m\<lparr>msgText := v\<rparr>)\<lparr>msgText := last (msgText (m\<lparr>msgText := v\<rparr>) # map snd l)\<rparr>]\<rparr>"
      by (rule Cons.IH(1) [OF st(2) st(3) st(5)])
    then show ?case
      by (cases l) (simp_all add: x replay_Cons st(4))
  next
    case 2
    note st = step [OF 2]
    have "transcript_step (messages s) (messages (apply_effect v s u))"
      unfolding st(3) using 2(2,3)
      by (simp add: transcript_step_def last_model_text_changed_def)
    moreover have "append_only (apply_effect v s u) l"
      by (rule Cons.IH(2) [OF st(2) st(3) st(5)])
    ultimately show ?case by (simp add: x del: apply_effect.simps)
  next
    case 3
    note st = step [OF 3]
    have "map (\<lambda>s'. length (msgText (last (messages s')))) (after_updates (apply_effect v s u) l)
        = map (\<lambda>x. length (snd x)) l"
      by (rule Cons.IH(3) [OF st(2) st(3) st(5)])
    moreover have "length (msgText (last (messages (apply_effect v s u)))) = length v"
      unfolding st(3) by simp
    ultimately show ?case by (simp add: x st(1) del: apply_effect.simps)
  next
    case 4
    note st = step [OF 4]
    show ?case using Cons.IH(4) [OF st(2) st(3) st(5)] by (simp add: x st(1) ov_values_def)
  }
qed

subsection \<open>The effects of handleSend\<close>

lemma exec_Nil: "exec sch (start s) [] = start s"
  by (simp add: exec_def start_def flush_0)

lemma run_Nil: "run sch s [] = s"
  by (simp add: run_def exec_Nil) (simp add: start_def)

lemma run_log_Nil: "run_log sch s [] = []"
  by (simp add: run_log_def exec_Nil) (simp add: start_def)

lemma accumulated_append: "accumulated (es @ fs) = accumulated es @ accumulated fs"
  by (simp add: accumulated_def)

lemma for_await_updates:
  "list_all (\<lambda>u. u = SetMessages OverwriteLastText) (filter is_state_update (for_await cs))"
  by (induction cs) (simp_all split: option.splits)

lemma for_await_accumulated: "accumulated (for_await cs) = received_text cs"
proof (induction cs)
  case Nil
  then show ?case by (simp add: accumulated_def received_text_def)
next
  case (Cons c cs)
  have "received_text (c # cs) = (case c of None \<Rightarrow> [] | Some t \<Rightarrow> t) @ received_text cs"
    by (simp add: received_text_def)
  moreover have "accumulated (Accumulate t # SetMessages OverwriteLastText # es) = t @ accumulated es"
    for t es by (simp add: accumulated_def)
  ultimately show ?case
    using Cons.IH by (auto simp: truthy_def split: option.splits)
qed

lemma for_await_no_updates:
  "filter is_state_update (for_await cs) = [] \<Longrightarrow> received_text cs = []"
proof (induction cs)
  case Nil
  then show ?case by (simp add: received_text_def)
next
  case (Cons c cs)
  have "received_text (c # cs) = (case c of None \<Rightarrow> [] | Some t \<Rightarrow> t) @ received_text cs"
    by (simp add: received_text_def)
  then show ?case
    using Cons by (auto simp: truthy_def split: option.splits if_splits)
qed

lemma for_await_no_create: "CreateChat \<notin> set (for_await cs)"
  by (induction cs) (simp_all split: option.splits)

lemma handleSend_unfold:
  assumes "truthy (trim (input s))" "chatRef s"
  shows "handleSend env s =
     [SetMessages (Append (user_message env s)), SetInput [], SetIsTyping True,
      SendMessageStream (input s)]
     @ (case reply env of
          OpenThrows \<Rightarrow> catch_block env
        | Opened chunks fin \<Rightarrow>
            SetMessages (Append (placeholder env)) # for_await chunks
              @ (case fin of Completes \<Rightarrow> [] | StreamThrows \<Rightarrow> catch_block env))
     @ [SetIsTyping False]"
  using assms by (simp add: handleSend_def try_block_def user_message_def Let_def)

lemma handleSend_no_create: "CreateChat \<notin> set (handleSend env s)"
  by (auto simp: handleSend_def try_block_def catch_block_def Let_def for_await_no_create
      split: stream_reply.splits stream_end.splits)

lemma handleSend_updates_open_throws:
  assumes "truthy (trim (input s))" "chatRef s" "reply env = OpenThrows"
  shows "filter is_state_update (handleSend env s) =
     [SetMessages (Append (user_message env s)), SetInput [], SetIsTyping True,
      SetMessages (Append (apology_message env)), SetIsTyping False]"
  by (simp add: handleSend_unfold [OF assms(1,2)] assms(3) catch_block_def)

lemma handleSend_updates_opened:
  assumes "truthy (trim (input s))" "chatRef s" "reply env = Opened cs fin"
  shows "filter is_state_update (handleSend env s) =
     [SetMessages (Append (user_message env s)), SetInput [], SetIsTyping True,
      SetMessages (Append (placeholder env))]
     @ filter is_state_update (for_await cs)
     @ (failure_updates env fin @ [SetIsTyping False])"
  by (cases fin)
    (simp_all add: handleSend_unfold [OF assms(1,2)] assms(3) catch_block_def failure_updates_def)

lemma handleSend_accumulated:
  assumes "truthy (trim (input s))" "chatRef s" "reply env = Opened cs fin"
  shows "accumulated (handleSend env s) = received_text cs"
proof -
  have "accumulated (handleSend env s) = accumulated (for_await cs)"
    by (cases fin)
      (simp_all add: handleSend_unfold [OF assms(1,2)] assms(3) catch_block_def
        accumulated_append, simp_all add: accumulated_def)
  then show ?thesis by (simp add: for_await_accumulated)
qed

lemma fresh_start: "fresh (start s)"
  by (simp add: fresh_def start_def ov_values_def)

lemma fresh_handleSend: "fresh (exec sch (start s) (handleSend env s))"
proof (cases "truthy (trim (input s)) \<and> chatRef s")
  case False
  then have "handleSend env s = []" by (auto simp: handleSend_def)
  then show ?thesis by (simp add: exec_Nil fresh_start)
next
  case True
  then have g: "truthy (trim (input s))" "chatRef s" by simp_all
  have plain: "fresh (steps sch' m es)"
    if "fresh m" "es = catch_block env \<or> es = [] \<or> es = [SetIsTyping False]
        \<or> es = [SetMessages (Append (user_message env s)), SetInput [], SetIsTyping True,
                SendMessageStream (input s)]
        \<or> es = [SetMessages (Append (placeholder env))]" for sch' m es
  proof (rule fresh_steps)
    show "fresh m" by (rule that(1))
    show "accumulated [e] = []" if "e \<in> set es" for e
      using that \<open>es = catch_block env \<or> _\<close>
      by (auto simp: catch_block_def accumulated_def)
  qed
  have "fresh (steps sch (start s) (handleSend env s))"
  proof (cases "reply env")
    case OpenThrows
    show ?thesis
      unfolding handleSend_unfold [OF g] OpenThrows stream_reply.case steps_append
      by (intro plain fresh_start) simp_all
  next
    case (Opened cs fin)
    have eq: "handleSend env s =
        [SetMessages (Append (user_message env s)), SetInput [], SetIsTyping True,
          SendMessageStream (input s)]
        @ [SetMessages (Append (placeholder env))] @ for_await cs
        @ (case fin of Completes \<Rightarrow> [] | StreamThrows \<Rightarrow> catch_block env)
        @ [SetIsTyping False]"
      by (simp add: handleSend_unfold [OF g] Opened)
    show ?thesis
      unfolding eq steps_append
      by (intro plain fresh_for_await fresh_start) (cases fin; simp)+
  qed
  then show ?thesis
    unfolding exec_def by (rule fresh_flush)
qed

lemma last_overwrite:
  assumes "truthy (trim (input s))" "chatRef s" "reply env = Opened cs fin"
  shows "ov_values (run_log sch s (handleSend env s)) = []
         \<or> last (ov_values (run_log sch s (handleSend env s))) = received_text cs"
  using fresh_handleSend [of sch s env]
  by (simp add: fresh_def queue_exec full_exec handleSend_accumulated [OF assms] run_log_def)

lemma ov_values_overwrites:
  "list_all (\<lambda>u. u = SetMessages OverwriteLastText) (map fst l) \<Longrightarrow> ov_values l = map snd l"
  by (induction l) (auto simp: ov_values_def)

lemma failure_updates_harmless: "list_all harmless (failure_updates env fin @ [SetIsTyping False])"
  by (cases fin) (simp_all add: failure_updates_def)

lemma opened_log:
  assumes "truthy (trim (input s))" "chatRef s" "reply env = Opened cs fin"
  obtains La Lb Lc where
    "run_log sch s (handleSend env s) = La @ Lb @ Lc"
    "map fst La = [SetMessages (Append (user_message env s)), SetInput [], SetIsTyping True,
        SetMessages (Append (placeholder env))]"
    "list_all (\<lambda>u. u = SetMessages OverwriteLastText) (map fst Lb)"
    "map fst Lc = failure_updates env fin @ [SetIsTyping False]"
    "last ([] # map snd Lb) = received_text cs"
    "sorted (map (\<lambda>x. length (snd x)) Lb)"
proof -
  define L where "L = run_log sch s (handleSend env s)"
  define A where "A = [SetMessages (Append (user_message env s)), SetInput [], SetIsTyping True,
      SetMessages (Append (placeholder env))]"
  define B where "B = filter is_state_update (for_await cs)"
  define C where "C = failure_updates env fin @ [SetIsTyping False]"
  have "map fst L =
     [SetMessages (Append (user_message env s)), SetInput [], SetIsTyping True,
      SetMessages (Append (placeholder env))]
     @ filter is_state_update (for_await cs)
     @ (failure_updates env fin @ [SetIsTyping False])"
    unfolding L_def log_order by (rule handleSend_updates_opened [OF assms])
  then have mf: "map fst L = A @ B @ C"
    by (simp add: A_def B_def C_def)
  define La where "La = take 4 L"
  define L' where "L' = drop 4 L"
  define Lb where "Lb = take (length B) L'"
  define Lc where "Lc = drop (length B) L'"
  have lenA: "length A = 4" by (simp add: A_def)
  have L: "L = La @ L'" by (simp add: La_def L'_def)
  have L': "L' = Lb @ Lc" by (simp add: Lb_def Lc_def)
  have "map fst La = take (length A) (map fst L)"
    by (simp add: La_def take_map lenA)
  then have a': "map fst La = A" unfolding mf by simp
  have "map fst L' = drop (length A) (map fst L)"
    by (simp add: L'_def drop_map lenA)
  then have mf': "map fst L' = B @ C" unfolding mf by simp
  have "map fst Lb = take (length B) (map fst L')"
    by (simp add: Lb_def take_map)
  then have b': "map fst Lb = B" unfolding mf' by simp
  have "map fst Lc = drop (length B) (map fst L')"
    by (simp add: Lc_def drop_map)
  then have c': "map fst Lc = C" unfolding mf' by simp
  note a = a' [unfolded A_def] and b = b' [unfolded B_def] and c = c' [unfolded C_def]
  have ovs: "list_all (\<lambda>u. u = SetMessages OverwriteLastText) (map fst Lb)"
    unfolding b by (rule for_await_updates)
  have ha: "list_all harmless (map fst La)" unfolding a by simp
  have hc: "list_all harmless (map fst Lc)" unfolding c by (rule failure_updates_harmless)
  have "ov_values L = map snd Lb"
    by (simp add: L L' ov_values_append harmless_log(4) [OF ha] harmless_log(4) [OF hc]
        ov_values_overwrites [OF ovs])
  with last_overwrite [OF assms, of sch]
  have "map snd Lb = [] \<or> last (map snd Lb) = received_text cs"
    by (simp add: L_def)
  then have disj: "Lb = [] \<or> last (map snd Lb) = received_text cs"
    by simp
  have val: "last ([] # map snd Lb) = received_text cs"
  proof (cases "Lb = []")
    case True
    then have "filter is_state_update (for_await cs) = []" using b by simp
    then have "received_text cs = []" by (rule for_await_no_updates)
    then show ?thesis using True by simp
  next
    case False
    with disj have "last (map snd Lb) = received_text cs" by simp
    then show ?thesis using False by simp
  qed
  have "sorted (map (\<lambda>x. length (snd x)) L)"
    unfolding L_def by (rule sorted_log)
  then have srt: "sorted (map (\<lambda>x. length (snd x)) Lb)"
    by (simp add: L L' sorted_append)
  show ?thesis
    using that [of La Lb Lc] L L' a ovs c val srt by (simp add: L_def)
qed

lemma replay_first_four:
  assumes "map fst La = [SetMessages (Append u), SetInput [], SetIsTyping True,
      SetMessages (Append p)]"
  shows "replay s La = s\<lparr>messages := messages s @ [u, p], input := [], isTyping := True\<rparr>"
    and "append_only s La" and "after_updates s La = []"
proof -
  have h: "list_all harmless (map fst La)" unfolding assms by simp
  show "replay s La = s\<lparr>messages := messages s @ [u, p], input := [], isTyping := True\<rparr>"
    unfolding harmless_log(3) [OF h] assms by simp
  show "append_only s La" by (rule harmless_log(2) [OF h])
  show "after_updates s La = []" by (rule harmless_log(1) [OF h])
qed

lemma replay_tail:
  assumes "map fst Lc = failure_updates env fin @ [SetIsTyping False]"
  shows "replay s Lc =
      s\<lparr>messages := messages s @ (case fin of Completes \<Rightarrow> [] | StreamThrows \<Rightarrow> [apology_message env]),
        isTyping := False\<rparr>"
    and "append_only s Lc" and "after_updates s Lc = []"
proof -
  have h: "list_all harmless (map fst Lc)" unfolding assms by (rule failure_updates_harmless)
  show "replay s Lc =
      s\<lparr>messages := messages s @ (case fin of Completes \<Rightarrow> [] | StreamThrows \<Rightarrow> [apology_message env]),
        isTyping := False\<rparr>"
    unfolding harmless_log(3) [OF h] assms by (cases fin) (simp_all add: failure_updates_def)
  show "append_only s Lc" by (rule harmless_log(2) [OF h])
  show "after_updates s Lc = []" by (rule harmless_log(1) [OF h])
qed

lemma run_handleSend:
  assumes "truthy (trim (input s))" "chatRef s"
  shows "run sch s (handleSend env s) =
     s\<lparr>messages := messages s @ [user_message env s]
          @ (case reply env of
               OpenThrows \<Rightarrow> [apology_message env]
             | Opened cs fin \<Rightarrow>
                 (placeholder env)\<lparr>msgText := received_text cs\<rparr>
                   # (case fin of Completes \<Rightarrow> [] | StreamThrows \<Rightarrow> [apology_message env])),
        input := [], isTyping := False\<rparr>"
proof (cases "reply env")
  case OpenThrows
  define L where "L = run_log sch s (handleSend env s)"
  have m: "map fst L = [SetMessages (Append (user_message env s)), SetInput [], SetIsTyping True,
      SetMessages (Append (apology_message env)), SetIsTyping False]"
    unfolding L_def log_order by (rule handleSend_updates_open_throws [OF assms OpenThrows])
  then have h: "list_all harmless (map fst L)" by simp
  have "run sch s (handleSend env s) = replay s L"
    unfolding L_def by (rule run_replay [OF handleSend_no_create])
  then show ?thesis
    unfolding harmless_log(3) [OF h] m by (simp add: OpenThrows)
next
  case (Opened cs fin)
  obtain La Lb Lc where L: "run_log sch s (handleSend env s) = La @ Lb @ Lc"
      and a: "map fst La = [SetMessages (Append (user_message env s)), SetInput [], SetIsTyping True,
          SetMessages (Append (placeholder env))]"
      and b: "list_all (\<lambda>u. u = SetMessages OverwriteLastText) (map fst Lb)"
      and c: "map fst Lc = failure_updates env fin @ [SetIsTyping False]"
      and v: "last ([] # map snd Lb) = received_text cs"
      and srt: "sorted (map (\<lambda>x. length (snd x)) Lb)"
      by (rule opened_log [OF assms Opened, of sch])
  define s1 where "s1 = s\<lparr>messages := messages s @ [user_message env s, placeholder env],
      input := [], isTyping := True\<rparr>"
  have r1: "replay s La = s1"
    unfolding s1_def by (rule replay_first_four(1) [OF a])
  have ms1: "messages s1 = (messages s @ [user_message env s]) @ [placeholder env]"
    by (simp add: s1_def)
  have ph: "role (placeholder env) = Model" "msgText (placeholder env) = []"
    by (simp_all add: placeholder_def)
  define s2 where "s2 = s1\<lparr>messages := (messages s @ [user_message env s])
      @ [(placeholder env)\<lparr>msgText := received_text cs\<rparr>]\<rparr>"
  have r2: "replay s1 Lb = s2"
    using overwrite_log(1) [OF b ms1 ph(1)] v by (simp add: s2_def ph(2))
  have "run sch s (handleSend env s) = replay s (La @ Lb @ Lc)"
    unfolding L [symmetric] by (rule run_replay [OF handleSend_no_create])
  also have "\<dots> = replay s2 Lc"
    by (simp add: replay_append r1 r2)
  finally show ?thesis
    unfolding replay_tail(1) [OF c]
    by (cases fin) (simp_all add: Opened s2_def s1_def)
qed

lemma handleSend_append_only: "append_only s (run_log sch s (handleSend env s))"
proof (cases "truthy (trim (input s)) \<and> chatRef s")
  case False
  then have "handleSend env s = []" by (auto simp: handleSend_def)
  then show ?thesis by (simp add: run_log_Nil)
next
  case True
  then have g: "truthy (trim (input s))" "chatRef s" by simp_all
  show ?thesis
  proof (cases "reply env")
    case OpenThrows
    have "map fst (run_log sch s (handleSend env s)) =
        [SetMessages (Append (user_message env s)), SetInput [], SetIsTyping True,
         SetMessages (Append (apology_message env)), SetIsTyping False]"
      unfolding log_order by (rule handleSend_updates_open_throws [OF g OpenThrows])
    then have "list_all harmless (map fst (run_log sch s (handleSend env s)))" by simp
    then show ?thesis by (rule harmless_log(2))
  next
    case (Opened cs fin)
      obtain La Lb Lc where L: "run_log sch s (handleSend env s) = La @ Lb @ Lc"
        and a: "map fst La = [SetMessages (Append (user_message env s)), SetInput [], SetIsTyping True,
            SetMessages (Append (placeholder env))]"
        and b: "list_all (\<lambda>u. u = SetMessages OverwriteLastText) (map fst Lb)"
        and c: "map fst Lc = failure_updates env fin @ [SetIsTyping False]"
        and v: "last ([] # map snd Lb) = received_text cs"
        and srt: "sorted (map (\<lambda>x. length (snd x)) Lb)"
        by (rule opened_log [OF g Opened, of sch])
    have ms1: "messages (replay s La) = (messages s @ [user_message env s]) @ [placeholder env]"
      unfolding replay_first_four(1) [OF a] by simp
    have ph: "role (placeholder env) = Model" by (simp add: placeholder_def)
    show ?thesis
      unfolding L append_only_append
      using replay_first_four(2) [OF a] overwrite_log(2) [OF b ms1 ph] replay_tail(2) [OF c]
      by simp
  qed
qed

lemma handleSend_growth:
  "sorted (map (\<lambda>s'. length (msgText (last (messages s'))))
     (after_updates s (run_log sch s (handleSend env s))))"
proof (cases "truthy (trim (input s)) \<and> chatRef s")
  case False
  then have "handleSend env s = []" by (auto simp: handleSend_def)
  then show ?thesis by (simp add: run_log_Nil)
next
  case True
  then have g: "truthy (trim (input s))" "chatRef s" by simp_all
  show ?thesis
  proof (cases "reply env")
    case OpenThrows
    have "map fst (run_log sch s (handleSend env s)) =
        [SetMessages (Append (user_message env s)), SetInput [], SetIsTyping True,
         SetMessages (Append (apology_message env)), SetIsTyping False]"
      unfolding log_order by (rule handleSend_updates_open_throws [OF g OpenThrows])
    then have "list_all harmless (map fst (run_log sch s (handleSend env s)))" by simp
    then show ?thesis by (simp add: harmless_log(1))
  next
    case (Opened cs fin)
      obtain La Lb Lc where L: "run_log sch s (handleSend env s) = La @ Lb @ Lc"
        and a: "map fst La = [SetMessages (Append (user_message env s)), SetInput [], SetIsTyping True,
            SetMessages (Append (placeholder env))]"
        and b: "list_all (\<lambda>u. u = SetMessages OverwriteLastText) (map fst Lb)"
        and c: "map fst Lc = failure_updates env fin @ [SetIsTyping False]"
        and v: "last ([] # map snd Lb) = received_text cs"
        and srt: "sorted (map (\<lambda>x. length (snd x)) Lb)"
        by (rule opened_log [OF g Opened, of sch])
    have ms1: "messages (replay s La) = (messages s @ [user_message env s]) @ [placeholder env]"
      unfolding replay_first_four(1) [OF a] by simp
    have ph: "role (placeholder env) = Model" by (simp add: placeholder_def)
    have "after_updates s (La @ Lb @ Lc) = after_updates (replay s La) Lb"
      by (simp add: after_updates_append replay_first_four(3) [OF a] replay_tail(3) [OF c])
    then show ?thesis
      unfolding L using overwrite_log(3) [OF b ms1 ph] srt by simp
  qed
qed

subsection \<open>The claims\<close>

lemma truthy_hi: "truthy (trim (js ''hi''))"
  by (simp add: truthy_def trim_def js_def is_white_space_def)

lemma apology_nonempty: "apology \<noteq> []"
  by (simp add: apology_def js_def)

lemma hello: "received_text [Some (js ''Hel''), Some (js ''lo'')] = js ''Hello''"
  by (simp add: received_text_def js_def)

text \<open>
  C2. Under every schedule, a turn streamed as the fragments "Hel", "lo" ends with the
  last transcript entry holding "Hello"; and in every turn, under every schedule, the
  lengths of the last entry's text after the successive fragment updates never decrease.
\<close>

theorem stream_accumulates:
  "(truthy (trim (input s)) \<and> chatRef s
      \<and> reply env = Opened [Some (js ''Hel''), Some (js ''lo'')] Completes
     \<longrightarrow> msgText (last (messages (run sch s (handleSend env s)))) = js ''Hello'')
   \<and> sorted (map (\<lambda>s'. length (msgText (last (messages s'))))
        (after_updates s (run_log sch s (handleSend env s))))"
  by (simp add: run_handleSend hello handleSend_growth)

lemma handleSend_s0_opened:
  "handleSend (e0 (Opened [Some (js ''Hel''), Some (js ''lo'')] Completes)) s0 =
     [SetMessages (Append \<lparr>role = User, msgText = js ''hi'', timestamp = 1\<rparr>), SetInput [],
      SetIsTyping True, SendMessageStream (js ''hi''),
      SetMessages (Append \<lparr>role = Model, msgText = [], timestamp = 2\<rparr>),
      Accumulate (js ''Hel''), SetMessages OverwriteLastText,
      Accumulate (js ''lo''), SetMessages OverwriteLastText,
      SetIsTyping False]"
  using truthy_hi
  by (simp add: handleSend_def try_block_def s0_def e0_def user_message_def placeholder_def
      truthy_def js_def)

lemma flush_1: "flush 1 m = react m"
  by (simp add: flush_def)

lemmas machine_eval =
  run_log_def run_def exec_def start_def react_def flush_0 flush_1 flush_Suc eager_def lazy_def

lemma log_eager:
  "run_log eager s0 (handleSend (e0 (Opened [Some (js ''Hel''), Some (js ''lo'')] Completes)) s0) =
     [(SetMessages (Append \<lparr>role = User, msgText = js ''hi'', timestamp = 1\<rparr>), []),
      (SetInput [], []), (SetIsTyping True, []),
      (SetMessages (Append \<lparr>role = Model, msgText = [], timestamp = 2\<rparr>), []),
      (SetMessages OverwriteLastText, js ''Hel''),
      (SetMessages OverwriteLastText, js ''Hello''),
      (SetIsTyping False, js ''Hello'')]"
  unfolding handleSend_s0_opened by (simp add: machine_eval js_def)

lemma log_lazy:
  "run_log lazy s0 (handleSend (e0 (Opened [Some (js ''Hel''), Some (js ''lo'')] Completes)) s0) =
     [(SetMessages (Append \<lparr>role = User, msgText = js ''hi'', timestamp = 1\<rparr>), js ''Hello''),
      (SetInput [], js ''Hello''), (SetIsTyping True, js ''Hello''),
      (SetMessages (Append \<lparr>role = Model, msgText = [], timestamp = 2\<rparr>), js ''Hello''),
      (SetMessages OverwriteLastText, js ''Hello''),
      (SetMessages OverwriteLastText, js ''Hello''),
      (SetIsTyping False, js ''Hello'')]"
  unfolding handleSend_s0_opened by (simp add: machine_eval js_def)

lemma lengths_eager:
  "map (\<lambda>s'. length (msgText (last (messages s'))))
     (after_updates s0 (run_log eager s0
        (handleSend (e0 (Opened [Some (js ''Hel''), Some (js ''lo'')] Completes)) s0))) = [3, 5]"
  unfolding log_eager by (simp add: s0_def js_def)

lemma lengths_lazy:
  "map (\<lambda>s'. length (msgText (last (messages s'))))
     (after_updates s0 (run_log lazy s0
        (handleSend (e0 (Opened [Some (js ''Hel''), Some (js ''lo'')] Completes)) s0))) = [5, 5]"
  unfolding log_lazy by (simp add: s0_def js_def)

theorem stream_accumulates_witness:
  "msgText (last (messages (run eager s0
      (handleSend (e0 (Opened [Some (js ''Hel''), Some (js ''lo'')] Completes)) s0)))) = js ''Hello''
   \<and> msgText (last (messages (run lazy s0
      (handleSend (e0 (Opened [Some (js ''Hel''), Some (js ''lo'')] Completes)) s0)))) = js ''Hello''
   \<and> sorted [3, 5 :: nat] \<and> sorted [5, 5 :: nat]
   \<and> map (\<lambda>s'. length (msgText (last (messages s'))))
        (after_updates s0 (run_log eager s0
           (handleSend (e0 (Opened [Some (js ''Hel''), Some (js ''lo'')] Completes)) s0))) = [3, 5]
   \<and> map (\<lambda>s'. length (msgText (last (messages s'))))
        (after_updates s0 (run_log lazy s0
           (handleSend (e0 (Opened [Some (js ''Hel''), Some (js ''lo'')] Completes)) s0))) = [5, 5]"
proof -
  have g: "truthy (trim (input s0)) \<and> chatRef s0
      \<and> reply (e0 (Opened [Some (js ''Hel''), Some (js ''lo'')] Completes))
          = Opened [Some (js ''Hel''), Some (js ''lo'')] Completes"
    using truthy_hi by (simp add: s0_def e0_def)
  note e = stream_accumulates
    [of s0 "e0 (Opened [Some (js ''Hel''), Some (js ''lo'')] Completes)" eager]
  note l = stream_accumulates
    [of s0 "e0 (Opened [Some (js ''Hel''), Some (js ''lo'')] Completes)" lazy]
  from e g have 1: "msgText (last (messages (run eager s0
      (handleSend (e0 (Opened [Some (js ''Hel''), Some (js ''lo'')] Completes)) s0)))) = js ''Hello''"
    by blast
  from l g have 2: "msgText (last (messages (run lazy s0
      (handleSend (e0 (Opened [Some (js ''Hel''), Some (js ''lo'')] Completes)) s0)))) = js ''Hello''"
    by blast
  from e have 3: "sorted [3, 5 :: nat]" unfolding lengths_eager by blast
  from l have 4: "sorted [5, 5 :: nat]" unfolding lengths_lazy by blast
  from 1 2 3 4 lengths_eager lengths_lazy show ?thesis by blast
qed

lemma handleSend_s0_open_throws:
  "handleSend (e0 OpenThrows) s0 =
     [SetMessages (Append \<lparr>role = User, msgText = js ''hi'', timestamp = 1\<rparr>), SetInput [],
      SetIsTyping True, SendMessageStream (js ''hi''), ChatConsoleError (js ''Chat error''),
      SetMessages (Append \<lparr>role = Model, msgText = apology, timestamp = 3\<rparr>),
      SetIsTyping False]"
  using truthy_hi
  by (simp add: handleSend_def try_block_def catch_block_def s0_def e0_def user_message_def
      apology_message_def)

text \<open>
  C3, as stated, fails: in the sample turn the placeholder is not appended before the
  request is sent to the collaborator.
\<close>

theorem placeholder_before_open_counterexample:
  "truthy (trim (input s0)) \<and>
   \<not> precedes (SetMessages (Append (placeholder (e0 (Opened [Some (js ''Hel''), Some (js ''lo'')] Completes))))) (SendMessageStream (input s0))
       (handleSend (e0 (Opened [Some (js ''Hel''), Some (js ''lo'')] Completes)) s0)"
  unfolding handleSend_s0_opened
  using truthy_hi by (simp add: precedes_def s0_def e0_def placeholder_def)

text \<open>
  C3, amended. With a non-empty trimmed input and a conversation handle, the first four
  effects are: append the user message, clear the input, set the typing flag, send the
  request. The empty placeholder is appended next, and only when the awaited request has
  returned a stream; when the request throws, no placeholder is appended at all.
\<close>

theorem open_before_placeholder:
  assumes "truthy (trim (input s))" and "chatRef s"
  shows "take 4 (handleSend env s) =
           [SetMessages (Append (user_message env s)), SetInput [], SetIsTyping True,
            SendMessageStream (input s)]
         \<and> (case reply env of
              Opened cs fin \<Rightarrow>
                handleSend env s ! 4 = SetMessages (Append (placeholder env))
                \<and> precedes (SendMessageStream (input s))
                     (SetMessages (Append (placeholder env))) (handleSend env s)
            | OpenThrows \<Rightarrow>
                SetMessages (Append (placeholder env)) \<notin> set (handleSend env s))"
proof (cases "reply env")
  case OpenThrows
  have "placeholder env \<noteq> user_message env s" "placeholder env \<noteq> apology_message env"
    using apology_nonempty by (auto simp: placeholder_def user_message_def apology_message_def)
  then show ?thesis
    unfolding handleSend_unfold [OF assms]
    by (simp add: OpenThrows catch_block_def)
next
  case (Opened cs fin)
  have "placeholder env \<noteq> user_message env s"
    by (simp add: placeholder_def user_message_def)
  then show ?thesis
    unfolding handleSend_unfold [OF assms]
    by (simp add: Opened precedes_def del: for_await.simps)
qed

theorem open_before_placeholder_witness:
  "handleSend (e0 (Opened [Some (js ''Hel''), Some (js ''lo'')] Completes)) s0 ! 4
     = SetMessages (Append \<lparr>role = Model, msgText = [], timestamp = 2\<rparr>)
   \<and> handleSend (e0 (Opened [Some (js ''Hel''), Some (js ''lo'')] Completes)) s0 ! 3
     = SendMessageStream (js ''hi'')
   \<and> SetMessages (Append \<lparr>role = Model, msgText = [], timestamp = 2\<rparr>)
       \<notin> set (handleSend (e0 OpenThrows) s0)"
proof -
  have g: "truthy (trim (input s0))" "chatRef s0"
    using truthy_hi by (simp_all add: s0_def)
  have a: "handleSend (e0 (Opened [Some (js ''Hel''), Some (js ''lo'')] Completes)) s0 ! 4
     = SetMessages (Append \<lparr>role = Model, msgText = [], timestamp = 2\<rparr>)"
    using open_before_placeholder [OF g, of "e0 (Opened [Some (js ''Hel''), Some (js ''lo'')] Completes)"]
    by (simp add: e0_def placeholder_def)
  have b: "SetMessages (Append \<lparr>role = Model, msgText = [], timestamp = 2\<rparr>)
       \<notin> set (handleSend (e0 OpenThrows) s0)"
    using open_before_placeholder [OF g, of "e0 OpenThrows"]
    by (simp add: e0_def placeholder_def)
  have c: "handleSend (e0 (Opened [Some (js ''Hel''), Some (js ''lo'')] Completes)) s0 ! 3
     = SendMessageStream (js ''hi'')"
    unfolding handleSend_s0_opened by simp
  from a b c show ?thesis by blast
qed

text \<open>
  C5, as stated, fails: when the awaited request itself throws, the transcript ends with
  the user message and the apology, and holds no placeholder.
\<close>

theorem placeholder_remains_counterexample:
  "truthy (trim (input s0)) \<and> reply (e0 OpenThrows) = OpenThrows
   \<and> placeholder (e0 OpenThrows) \<notin> set (messages (run eager s0 (handleSend (e0 OpenThrows) s0)))
   \<and> messages (run eager s0 (handleSend (e0 OpenThrows) s0))
       = [user_message (e0 OpenThrows) s0, apology_message (e0 OpenThrows)]"
proof -
  have g: "truthy (trim (input s0))" "chatRef s0"
    using truthy_hi by (simp_all add: s0_def)
  note r = run_handleSend [OF g, of eager "e0 OpenThrows"]
  show ?thesis
    unfolding r using g(1) apology_nonempty
    by (simp add: e0_def placeholder_def user_message_def apology_message_def)
      (simp add: s0_def)
qed

text \<open>
  C5, amended. On a failed turn, under every schedule, the typing flag is cleared and the
  apology is appended as a new last entry. When the request throws before a stream
  exists, the transcript gains the user message and the apology only. When the stream
  throws after it was opened, the placeholder stays in front of the apology with the text
  received so far, which is empty only if no text had arrived.
\<close>

theorem stream_failure_recovery:
  assumes "truthy (trim (input s))" and "chatRef s"
  shows "(reply env = OpenThrows \<longrightarrow>
            run sch s (handleSend env s) =
              s\<lparr>messages := messages s @ [user_message env s, apology_message env],
                input := [], isTyping := False\<rparr>)
         \<and> (reply env = Opened cs StreamThrows \<longrightarrow>
            run sch s (handleSend env s) =
              s\<lparr>messages := messages s @ [user_message env s,
                   (placeholder env)\<lparr>msgText := received_text cs\<rparr>, apology_message env],
                input := [], isTyping := False\<rparr>)"
  by (simp add: run_handleSend [OF assms])

theorem stream_failure_recovery_witness:
  "messages (run eager s0 (handleSend (e0 OpenThrows) s0))
     = [\<lparr>role = User, msgText = js ''hi'', timestamp = 1\<rparr>,
        \<lparr>role = Model, msgText = apology, timestamp = 3\<rparr>]
   \<and> isTyping (run eager s0 (handleSend (e0 OpenThrows) s0)) = False
   \<and> messages (run lazy s0 (handleSend (e0 (Opened [Some (js ''Hel'')] StreamThrows)) s0))
     = [\<lparr>role = User, msgText = js ''hi'', timestamp = 1\<rparr>,
        \<lparr>role = Model, msgText = js ''Hel'', timestamp = 2\<rparr>,
        \<lparr>role = Model, msgText = apology, timestamp = 3\<rparr>]
   \<and> isTyping (run lazy s0 (handleSend (e0 (Opened [Some (js ''Hel'')] StreamThrows)) s0)) = False"
proof -
  have g: "truthy (trim (input s0))" "chatRef s0"
    using truthy_hi by (simp_all add: s0_def)
  have a: "reply (e0 OpenThrows) = OpenThrows"
    and b: "reply (e0 (Opened [Some (js ''Hel'')] StreamThrows)) = Opened [Some (js ''Hel'')] StreamThrows"
    by (simp_all add: e0_def)
  from stream_failure_recovery [OF g, where env = "e0 OpenThrows" and sch = eager] a
  have 1: "run eager s0 (handleSend (e0 OpenThrows) s0) =
      s0\<lparr>messages := messages s0 @ [user_message (e0 OpenThrows) s0, apology_message (e0 OpenThrows)],
        input := [], isTyping := False\<rparr>"
    by blast
  from stream_failure_recovery [OF g, where env = "e0 (Opened [Some (js ''Hel'')] StreamThrows)"
      and cs = "[Some (js ''Hel'')]" and sch = lazy] b
  have 2: "run lazy s0 (handleSend (e0 (Opened [Some (js ''Hel'')] StreamThrows)) s0) =
      s0\<lparr>messages := messages s0 @ [user_message (e0 (Opened [Some (js ''Hel'')] StreamThrows)) s0,
           (placeholder (e0 (Opened [Some (js ''Hel'')] StreamThrows)))\<lparr>msgText := received_text [Some (js ''Hel'')]\<rparr>,
           apology_message (e0 (Opened [Some (js ''Hel'')] StreamThrows))],
        input := [], isTyping := False\<rparr>"
    by blast
  show ?thesis
    unfolding 1 2
    by (simp add: s0_def e0_def user_message_def apology_message_def placeholder_def received_text_def)
qed

lemma mount_append_only:
  "append_only initial_chat_state (run_log sch initial_chat_state (mount now))"
proof -
  define L where "L = run_log sch initial_chat_state (mount now)"
  have "map fst L = [SetMessages (Replace [\<lparr>role = Model, msgText = greeting, timestamp = now\<rparr>])]"
    unfolding L_def log_order by (simp add: mount_def)
  then obtain v where "L = [(SetMessages (Replace [\<lparr>role = Model, msgText = greeting, timestamp = now\<rparr>]), v)]"
    by (cases L) auto
  then show ?thesis
    unfolding L_def [symmetric]
    by (simp add: initial_chat_state_def transcript_step_def appended_def)
qed

text \<open>
  C8. Under every schedule, every update that React applies for \<open>handleSend\<close> leaves
  the transcript as it is, appends one entry at its end, or changes only the text of its
  last entry, a model message; the entries present before the call are a prefix of the
  transcript after it; and the mount effect appends the greeting to the empty transcript.
\<close>

theorem transcript_append_only:
  "append_only s (run_log sch s (handleSend env s))
   \<and> take (length (messages s)) (messages (run sch s (handleSend env s))) = messages s
   \<and> append_only initial_chat_state (run_log sch initial_chat_state (mount now))"
proof (intro conjI)
  show "append_only s (run_log sch s (handleSend env s))" by (rule handleSend_append_only)
  show "take (length (messages s)) (messages (run sch s (handleSend env s))) = messages s"
  proof (cases "truthy (trim (input s)) \<and> chatRef s")
    case True
    then show ?thesis by (simp add: run_handleSend)
  next
    case False
    then show ?thesis by (auto simp: handleSend_def run_Nil)
  qed
  show "append_only initial_chat_state (run_log sch initial_chat_state (mount now))"
    by (rule mount_append_only)
qed

theorem transcript_append_only_witness:
  "append_only s0 (run_log lazy s0
      (handleSend (e0 (Opened [Some (js ''Hel''), Some (js ''lo'')] Completes)) s0))
   \<and> append_only s0 (run_log eager s0
      (handleSend (e0 (Opened [Some (js ''Hel''), Some (js ''lo'')] Completes)) s0))
   \<and> messages (run lazy s0 (handleSend (e0 (Opened [Some (js ''Hel''), Some (js ''lo'')] Completes)) s0))
      = [\<lparr>role = User, msgText = js ''hi'', timestamp = 1\<rparr>,
         \<lparr>role = Model, msgText = js ''Hello'', timestamp = 2\<rparr>]"
proof -
  have g: "truthy (trim (input s0))" "chatRef s0"
    using truthy_hi by (simp_all add: s0_def)
  have "messages (run lazy s0 (handleSend (e0 (Opened [Some (js ''Hel''), Some (js ''lo'')] Completes)) s0))
      = [\<lparr>role = User, msgText = js ''hi'', timestamp = 1\<rparr>,
         \<lparr>role = Model, msgText = js ''Hello'', timestamp = 2\<rparr>]"
    unfolding run_handleSend [OF g, of lazy "e0 (Opened [Some (js ''Hel''), Some (js ''lo'')] Completes)"]
    by (simp add: e0_def s0_def user_message_def placeholder_def received_text_def js_def)
  with transcript_append_only [of s0 lazy "e0 (Opened [Some (js ''Hel''), Some (js ''lo'')] Completes)"]
    transcript_append_only [of s0 eager "e0 (Opened [Some (js ''Hel''), Some (js ''lo'')] Completes)"]
  show ?thesis by blast
qed

text \<open>
  C9. When the trimmed input is empty, \<open>handleSend\<close> does nothing at all: its effect
  list is empty, so no request goes to the collaborator, and the transcript, the input
  field and the typing flag are what they were.
\<close>

theorem send_blank_noop:
  "trim (input s) = [] \<Longrightarrow>
     handleSend env s = []
     \<and> messages (run sch s (handleSend env s)) = messages s
     \<and> input (run sch s (handleSend env s)) = input s
     \<and> isTyping (run sch s (handleSend env s)) = isTyping s"
  by (simp add: handleSend_def truthy_def run_Nil)

theorem send_blank_noop_witness:
  "trim (input \<lparr>messages = [], input = js '' '', isTyping = False, chatRef = True\<rparr>) = []
   \<and> handleSend \<lparr>reply = Opened [Some (js ''Hi'')] Completes, now_user = 1,
         now_placeholder = 2, now_apology = 3\<rparr>
       \<lparr>messages = [], input = js '' '', isTyping = False, chatRef = True\<rparr> = []"
proof -
  have h: "trim (input \<lparr>messages = [], input = js '' '', isTyping = False, chatRef = True\<rparr>) = []"
    by (simp add: trim_def js_def is_white_space_def)
  from send_blank_noop [OF h] show ?thesis using h by simp
qed

section \<open>Analyzer: properties\<close>

lemma split_from_not_Nil: "split_from sep cur s \<noteq> []"
  by (induction sep cur s rule: split_from.induct) simp_all

lemma js_join_Cons: "ys \<noteq> [] \<Longrightarrow> js_join sep (x # ys) = x @ sep @ js_join sep ys"
  by (cases ys) simp_all

lemma join_split_from: "sep \<noteq> [] \<Longrightarrow> js_join sep (split_from sep cur s) = cur @ s"
proof (induction sep cur s rule: split_from.induct)
  case (1 sep cur)
  then show ?case by simp
next
  case (2 sep cur c cs)
  show ?case
  proof (cases "take (length sep) (c # cs) = sep")
    case True
    with 2 have "js_join sep (split_from sep [] (drop (length sep) (c # cs)))
        = drop (length sep) (c # cs)"
      by simp
    moreover have "sep @ drop (length sep) (c # cs) = c # cs"
      using True append_take_drop_id [of "length sep" "c # cs"] by simp
    ultimately show ?thesis
      using True 2(3) by (simp add: js_join_Cons split_from_not_Nil del: drop.simps take.simps)
  next
    case False
    with 2 show ?thesis by simp
  qed
qed

lemma hd_split_from_char:
  "hd (split_from [n] cur s) = cur @ takeWhile (\<lambda>c. c \<noteq> n) s"
  by (induction s arbitrary: cur) simp_all

lemma delimiter_eq: "delimiter = [0x23, 0x23, 0x20]"
  by (simp add: delimiter_def js_def)

lemma occurrences_delimiter_match:
  assumes "take (length delimiter) (c # cs) = delimiter"
  shows "occurrences delimiter (c # cs) = Suc (occurrences delimiter (drop (length delimiter) (c # cs)))"
proof -
  from assms obtain rest where s: "c # cs = 0x23 # 0x23 # 0x20 # rest"
    unfolding delimiter_eq
    by (metis append_take_drop_id append_Cons append_Nil)
  show ?thesis
    unfolding s delimiter_eq by (cases rest) simp_all
qed

lemma length_split_from_delimiter:
  "sep = delimiter \<Longrightarrow> length (split_from sep cur s) = Suc (occurrences sep s)"
proof (induction sep cur s rule: split_from.induct)
  case (1 sep cur)
  then show ?case by simp
next
  case (2 sep cur c cs)
  have ne: "sep \<noteq> []" using 2(3) by (simp add: delimiter_eq)
  show ?case
  proof (cases "take (length sep) (c # cs) = sep")
    case True
    then have "length (split_from sep [] (drop (length sep) (c # cs)))
        = Suc (occurrences sep (drop (length sep) (c # cs)))"
      using 2(1) 2(3) ne by simp
    moreover have "occurrences sep (c # cs)
        = Suc (occurrences sep (drop (length sep) (c # cs)))"
      using occurrences_delimiter_match True 2(3) by simp
    ultimately show ?thesis using True ne by (simp del: drop.simps take.simps occurrences.simps)
  next
    case False
    then show ?thesis using 2(2) 2(3) by simp
  qed
qed

lemma split_newline:
  "js_split newline seg = first_line seg # tl (js_split newline seg)"
proof -
  have "js_split newline seg = split_from [0xA] [] seg"
    by (simp add: js_split_def newline_def)
  moreover have "hd (split_from [0xA] [] seg) = first_line seg"
    by (simp add: hd_split_from_char first_line_def)
  ultimately show ?thesis
    using split_from_not_Nil [of "[0xA]" "[]" seg] by (cases "split_from [0xA] [] seg") simp_all
qed

lemma join_rest_newline:
  "js_join newline (tl (js_split newline seg)) = after_first_line seg"
proof -
  define content where "content = tl (js_split newline seg)"
  have sp: "js_split newline seg = first_line seg # content"
    unfolding content_def by (rule split_newline)
  have "js_join newline (js_split newline seg) = seg"
    using join_split_from [of newline "[]" seg] by (simp add: js_split_def newline_def)
  then have whole: "js_join newline (first_line seg # content) = seg"
    by (simp add: sp)
  show ?thesis
  proof (cases "content = []")
    case True
    with whole have "seg = first_line seg" by simp
    then have "after_first_line seg = []"
      by (simp add: after_first_line_def)
    with True have "js_join newline content = after_first_line seg" by simp
    then show ?thesis by (simp add: content_def)
  next
    case False
    with whole have "seg = first_line seg @ newline @ js_join newline content"
      by (simp add: js_join_Cons)
    then have "after_first_line seg = drop (Suc (length (first_line seg)))
        (first_line seg @ newline @ js_join newline content)"
      by (simp add: after_first_line_def)
    then have "js_join newline content = after_first_line seg"
      by (simp add: newline_def)
    then show ?thesis by (simp add: content_def)
  qed
qed

lemma render_section_Suc: "render_section (Suc n, seg) = Some (titled seg)"
proof -
  have "js_split newline seg = first_line seg # tl (js_split newline seg)"
    by (rule split_newline)
  then show ?thesis
    using join_rest_newline [of seg]
    by (cases "js_split newline seg") (simp_all add: render_section_def titled_def)
qed

lemma map_filter_render_Suc:
  "List.map_filter render_section (enumerate (Suc n) segs) = map titled segs"
  by (induction segs arbitrary: n) (simp_all add: map_filter_simps render_section_Suc)

lemma render_section_0: "render_section (0, seg) = None"
  by (simp add: render_section_def)

lemma render_segments:
  "List.map_filter render_section (enumerate 0 (seg # segs)) = map titled segs"
  by (simp add: map_filter_simps map_filter_render_Suc render_section_0)

lemma renderResult_sections: "renderResult (Some r) = map titled (tl (js_split delimiter r))"
proof (cases "truthy r")
  case True
  obtain seg segs where sp: "js_split delimiter r = seg # segs"
    using split_from_not_Nil [of delimiter "[]" r]
    by (cases "js_split delimiter r") (simp_all add: js_split_def delimiter_eq)
  show ?thesis using True by (simp add: renderResult_def sp render_segments del: enumerate_simps)
next
  case False
  then show ?thesis by (simp add: renderResult_def truthy_def js_split_def delimiter_eq)
qed

lemma length_js_split_delimiter: "length (js_split delimiter r) = Suc (occurrences delimiter r)"
  by (simp add: js_split_def delimiter_eq length_split_from_delimiter [unfolded delimiter_eq])

text \<open>
  C1, amended. The result panel shows one section for each occurrence of the delimiter
  "## " in the stored text, so N sections for N occurrences: the split has N + 1 segments
  and the first is dropped. Each section is made from one of the remaining segments, in
  order: its title is the trimmed first line of the segment, its body the trimmed text
  after that line.
\<close>

theorem sections_rendered:
  "length (renderResult (Some r)) = occurrences delimiter r
   \<and> renderResult (Some r) = map titled (tl (js_split delimiter r))"
  by (simp add: renderResult_sections length_js_split_delimiter)

lemma two_sections_eq:
  "two_sections = [35, 35, 32, 49, 46, 32, 81, 10, 50, 43, 50, 63, 10, 35, 35, 32, 50, 46, 32, 86, 10, 52]"
  by (simp add: two_sections_def js_def newline_def)

lemma occurrences_two_sections: "occurrences delimiter two_sections = 2"
  unfolding two_sections_eq delimiter_eq by simp

theorem sections_rendered_witness:
  "length (renderResult (Some two_sections)) = 2
   \<and> renderResult (Some two_sections)
       = [\<lparr>title = js ''1. Q'', body = js ''2+2?''\<rparr>, \<lparr>title = js ''2. V'', body = js ''4''\<rparr>]"
proof -
  have sp: "js_split delimiter two_sections
      = [[], [49, 46, 32, 81, 10, 50, 43, 50, 63, 10], [50, 46, 32, 86, 10, 52]]"
    unfolding two_sections_eq delimiter_eq by (simp add: js_split_def)
  from sections_rendered [of two_sections]
  show ?thesis
    by (simp add: occurrences_two_sections sp titled_def first_line_def after_first_line_def
        trim_def is_white_space_def js_def)
qed

text \<open>
  C1, as stated, fails: a text stored by \<open>handleAnalyze\<close> with two occurrences of the
  delimiter is shown as two sections, not one.
\<close>

theorem sections_count_counterexample:
  "result (handleAnalyze (answers (Some two_sections)) a0) = Some two_sections
   \<and> occurrences delimiter two_sections = 2
   \<and> length (renderResult (Some two_sections)) \<noteq> occurrences delimiter two_sections - 1"
proof -
  have "truthy two_sections" by (simp add: two_sections_eq truthy_def)
  then have "result (handleAnalyze (answers (Some two_sections)) a0) = Some two_sections"
    by (simp add: handleAnalyze_def analyze_try_def answers_def a0_def)
  moreover have "length (renderResult (Some two_sections)) = 2"
    by (simp add: renderResult_sections length_js_split_delimiter occurrences_two_sections)
  ultimately show ?thesis by (simp add: occurrences_two_sections)
qed

text \<open>
  C7, as stated, fails: a request that succeeds with the empty string as its text leaves
  the stored result null, not that text.
\<close>

theorem analyze_result_counterexample:
  "selected_file a0 \<noteq> None \<and> generateContent (answers (Some [])) = Resolves (Some [])
   \<and> result (handleAnalyze (answers (Some [])) a0) = None"
  by (simp add: handleAnalyze_def analyze_try_def answers_def a0_def truthy_def)

text \<open>
  C7, amended. For a completed \<open>handleAnalyze\<close> on a selected file: if the request
  succeeds with a non-empty text, the stored result is that text; if it succeeds with an
  empty or absent text, the result stays cleared; if the encoding or the request throws,
  the stored result is the fixed error string and one line is logged. In each case the
  analyzing flag is off again and nothing else changes.
\<close>

theorem analyze_result:
  assumes "selected_file s = Some f"
  shows "(blobToBase64 env = Resolves d \<and> generateContent env = Resolves (Some t) \<and> truthy t
            \<longrightarrow> handleAnalyze env s = s\<lparr>isAnalyzing := False, result := Some t\<rparr>)
       \<and> (blobToBase64 env = Resolves d
            \<and> (generateContent env = Resolves None \<or> generateContent env = Resolves (Some []))
            \<longrightarrow> handleAnalyze env s = s\<lparr>isAnalyzing := False, result := None\<rparr>)
       \<and> (blobToBase64 env = Rejects \<or> generateContent env = Rejects
            \<longrightarrow> handleAnalyze env s =
                  s\<lparr>isAnalyzing := False, result := Some analysis_error,
                    console := console s @ [js ''Analysis failed'']\<rparr>)"
  using assms
  by (auto simp: handleAnalyze_def analyze_try_def analyze_catch_def truthy_def
      split: promise.splits option.splits)

theorem analyze_result_witness:
  "result (handleAnalyze (answers (Some two_sections)) a0) = Some two_sections
   \<and> result (handleAnalyze (answers None) a0) = None
   \<and> result (handleAnalyze \<lparr>blobToBase64 = Resolves (js ''AAAA''), generateContent = Rejects\<rparr> a0)
       = Some analysis_error
   \<and> console (handleAnalyze \<lparr>blobToBase64 = Resolves (js ''AAAA''), generateContent = Rejects\<rparr> a0)
       = [js ''Analysis failed'']"
proof -
  have f: "selected_file a0 = Some \<lparr>fileType = js ''image/png''\<rparr>"
    by (simp add: a0_def)
  have t: "truthy two_sections"
    by (simp add: two_sections_def truthy_def js_def)
  have 1: "result (handleAnalyze (answers (Some two_sections)) a0) = Some two_sections"
    using analyze_result [OF f, of "answers (Some two_sections)" "js ''AAAA''" two_sections] t
    by (simp add: answers_def)
  have 2: "result (handleAnalyze (answers None) a0) = None"
    using analyze_result [OF f, of "answers None" "js ''AAAA''"]
    by (simp add: answers_def)
  have 3: "handleAnalyze \<lparr>blobToBase64 = Resolves (js ''AAAA''), generateContent = Rejects\<rparr> a0
       = a0\<lparr>isAnalyzing := False, result := Some analysis_error,
            console := console a0 @ [js ''Analysis failed'']\<rparr>"
    using analyze_result [OF f, of "\<lparr>blobToBase64 = Resolves (js ''AAAA''), generateContent = Rejects\<rparr>"]
    by simp
  show ?thesis
    unfolding 3 using 1 2 by (simp add: a0_def)
qed

section \<open>Image generator: properties\<close>

lemma gen_run_Nil: "gen_run s [] = s"
  by (simp add: gen_run_def)

lemma gen_run_Cons: "gen_run s (e # es) = gen_run (gen_apply s e) es"
  by (simp add: gen_run_def)

lemma gen_run_append: "gen_run s (es @ fs) = gen_run (gen_run s es) fs"
  by (simp add: gen_run_def)

lemma push_images_filter:
  "push_images images ps = images @ map image_url (filter has_payload ps)"
proof (induction ps arbitrary: images)
  case Nil
  then show ?case by simp
next
  case (Cons p ps)
  show ?case
    by (simp add: Cons.IH has_payload_def image_url_def or_else_def split: option.splits)
qed

lemma collect_images_filter:
  "collect_images response = map image_url (filter has_payload (response_parts response))"
  by (simp add: collect_images_def response_parts_def push_images_filter split: option.splits)

lemma has_payload_inline: "has_payload p \<Longrightarrow> has_inline_data p"
  by (simp add: has_payload_def has_inline_data_def split: option.splits)

lemma truthy_prompt_g0: "truthy (trim (prompt g0))"
  by (simp add: g0_def truthy_def trim_def js_def is_white_space_def)

text \<open>
  C4, as stated, fails: a response whose only part carries inline data without a payload
  yields an empty gallery, although it has one inline-data part.
\<close>

theorem gallery_counterexample:
  "truthy (trim (prompt g0))
   \<and> length (filter has_inline_data (response_parts (with_parts [png_part None]))) = 1
   \<and> generatedImages (gen_run g0 (handleGenerate
         \<lparr>aistudio = None, request = Responds (with_parts [png_part None])\<rparr> g0)) = []"
  using truthy_prompt_g0
  by (simp add: handleGenerate_def gen_run_Cons gen_run_Nil collect_images_def
      first_candidate_parts_def response_parts_def with_parts_def png_part_def has_inline_data_def)

text \<open>
  C4, amended. When the image request returns, the gallery holds exactly one data URL for
  each part of the first candidate that carries inline data with a non-empty payload, in
  the order of the parts; it is empty when there is no such part. When every inline-data
  part has a payload, that is one entry per inline-data part.
\<close>

theorem gallery_of_response:
  assumes "truthy (trim (prompt s))" and "request env = Responds response"
  shows "generatedImages (gen_run s (handleGenerate env s))
           = map image_url (filter has_payload (response_parts response))
         \<and> length (generatedImages (gen_run s (handleGenerate env s)))
           = length (filter has_payload (response_parts response))
         \<and> (list_all has_payload (filter has_inline_data (response_parts response)) \<longrightarrow>
              length (generatedImages (gen_run s (handleGenerate env s)))
                = length (filter has_inline_data (response_parts response)))"
proof -
  have imgs: "generatedImages (gen_run s (handleGenerate env s))
           = map image_url (filter has_payload (response_parts response))"
    using assms by (simp add: handleGenerate_def gen_run_Cons gen_run_Nil collect_images_filter)
  have "filter has_payload ps = filter has_inline_data ps"
    if "list_all has_payload (filter has_inline_data ps)" for ps
    using that by (induction ps) (auto dest: has_payload_inline)
  with imgs show ?thesis by simp
qed

theorem gallery_of_response_witness:
  "generatedImages (gen_run g0 (handleGenerate
      \<lparr>aistudio = None,
         request = Responds (with_parts [png_part (Some (js ''AAAA'')), text_part, png_part (Some (js ''BBBB''))])\<rparr> g0))
     = [js ''data:image/png;base64,AAAA'', js ''data:image/png;base64,BBBB'']
   \<and> generatedImages (gen_run g0 (handleGenerate
      \<lparr>aistudio = None, request = Responds (with_parts [text_part])\<rparr> g0)) = []"
proof -
  have 1: "request \<lparr>aistudio = None,
         request = Responds (with_parts [png_part (Some (js ''AAAA'')), text_part, png_part (Some (js ''BBBB''))])\<rparr>
      = Responds (with_parts [png_part (Some (js ''AAAA'')), text_part, png_part (Some (js ''BBBB''))])"
    by simp
  have 2: "request \<lparr>aistudio = None, request = Responds (with_parts [text_part])\<rparr>
      = Responds (with_parts [text_part])"
    by simp
  show ?thesis
    using gallery_of_response [OF truthy_prompt_g0 1] gallery_of_response [OF truthy_prompt_g0 2]
    by (simp add: response_parts_def first_candidate_parts_def with_parts_def png_part_def
        text_part_def has_payload_def image_url_def or_else_def truthy_def js_def)
qed

lemma auth_failure_not_found: "auth_failure (Some not_found)"
  by (simp add: auth_failure_def not_found_def auth_marker_def js_def)

lemma auth_failure_other: "\<not> auth_failure (Some (js ''{}''))"
  by (simp add: auth_failure_def auth_marker_def js_def)

lemma handleGenerate_throws:
  assumes "truthy (trim (prompt s))" and "request env = Throws err"
  shows "handleGenerate env s =
     [SetIsLoading True, SetGeneratedImages [], GenerateContent (prompt s) (resolution s),
      ConsoleError (js ''Image generation failed'')]
     @ (if auth_failure err
        then [SetHasApiKey False, CallHandleConnectKey] @ connect_call env
               @ [SetIsLoading False] @ connect_resume env
        else SetIsLoading False # (case err of None \<Rightarrow> [Uncaught] | Some j \<Rightarrow> []))"
  using assms
  by (simp add: handleGenerate_def gen_catch_def auth_failure_def split: option.splits)

lemma gen_run_connect_call: "gen_run s (connect_call env) = s"
  by (simp add: connect_call_def gen_run_Cons gen_run_Nil split: option.splits)

lemma gen_run_connect_resume:
  "gen_run s (connect_resume env) = (if connect_succeeds env then s\<lparr>hasApiKey := True\<rparr> else s)"
  by (simp add: connect_resume_def connect_succeeds_def gen_run_Cons gen_run_Nil
      split: option.splits promise.splits)

lemma connect_effects:
  "SetHasApiKey False \<notin> set (connect_call env)"
  "SetHasApiKey False \<notin> set (connect_resume env)"
  "count_list (connect_call env) CallHandleConnectKey = 0"
  "count_list (connect_resume env) CallHandleConnectKey = 0"
  by (simp_all add: connect_call_def connect_resume_def split: option.splits promise.splits)

text \<open>
  C6. When the image request throws, the effects of \<open>handleGenerate\<close> are exactly:
  the loading flag on, the gallery emptied, the request, the error logged; then, when the
  serialised error contains the marker, the key state set to missing,
  \<open>handleConnectKey\<close> called, the host's \<open>openSelectKey\<close> called if the host offers
  it, the loading flag off, and the key state set to present once that call has resolved;
  otherwise only the loading flag off. So the key state is set to missing, and
  \<open>handleConnectKey\<close> and the host's \<open>openSelectKey\<close> are called (once), exactly
  when the serialised error contains the marker. The final state is the start state with
  an empty gallery, the loading flag off, and a key state that depends on the error only
  through that test, so no text of the error reaches the state that is rendered.
\<close>

theorem generate_failure:
  assumes "truthy (trim (prompt s))" and "request env = Throws err"
  shows "handleGenerate env s =
           [SetIsLoading True, SetGeneratedImages [], GenerateContent (prompt s) (resolution s),
            ConsoleError (js ''Image generation failed'')]
           @ (if auth_failure err
              then [SetHasApiKey False, CallHandleConnectKey]
                   @ (if host_offers_connect env then [CallOpenSelectKey] else [])
                   @ [SetIsLoading False]
                   @ (if host_offers_connect env
                      then (if connect_succeeds env then [SetHasApiKey True] else [Uncaught])
                      else [])
              else SetIsLoading False # (if err = None then [Uncaught] else []))
       \<and> ConsoleError (js ''Image generation failed'') \<in> set (handleGenerate env s)
       \<and> (SetHasApiKey False \<in> set (handleGenerate env s)) = auth_failure err
       \<and> count_list (handleGenerate env s) CallHandleConnectKey
           = (if auth_failure err then 1 else 0)
       \<and> count_list (handleGenerate env s) CallOpenSelectKey
           = (if auth_failure err \<and> host_offers_connect env then 1 else 0)
       \<and> gen_run s (handleGenerate env s) =
           s\<lparr>generatedImages := [], isLoading := False,
             hasApiKey := (if auth_failure err then connect_succeeds env else hasApiKey s)\<rparr>"
proof -
  have call: "connect_call env = (if host_offers_connect env then [CallOpenSelectKey] else [])"
    by (simp add: connect_call_def host_offers_connect_def split: option.splits)
  have resume: "connect_resume env =
      (if host_offers_connect env
       then (if connect_succeeds env then [SetHasApiKey True] else [Uncaught])
       else [])"
    by (simp add: connect_resume_def host_offers_connect_def connect_succeeds_def
        split: option.splits promise.splits)
  have none: "auth_failure err \<Longrightarrow> err \<noteq> None"
    by (cases err) (simp_all add: auth_failure_def)
  have trace: "handleGenerate env s =
           [SetIsLoading True, SetGeneratedImages [], GenerateContent (prompt s) (resolution s),
            ConsoleError (js ''Image generation failed'')]
           @ (if auth_failure err
              then [SetHasApiKey False, CallHandleConnectKey]
                   @ (if host_offers_connect env then [CallOpenSelectKey] else [])
                   @ [SetIsLoading False]
                   @ (if host_offers_connect env
                      then (if connect_succeeds env then [SetHasApiKey True] else [Uncaught])
                      else [])
              else SetIsLoading False # (if err = None then [Uncaught] else []))"
    unfolding handleGenerate_throws [OF assms] call resume
    by (cases err) simp_all
  have offers: "connect_succeeds env \<Longrightarrow> host_offers_connect env"
    by (auto simp: connect_succeeds_def host_offers_connect_def split: option.splits)
  have final: "gen_run s (handleGenerate env s) =
           s\<lparr>generatedImages := [], isLoading := False,
             hasApiKey := (if auth_failure err then connect_succeeds env else hasApiKey s)\<rparr>"
    unfolding trace using offers
    by (cases "auth_failure err"; cases "host_offers_connect env"; cases "connect_succeeds env")
      (simp_all add: gen_run_Cons gen_run_Nil)
  have rest: "ConsoleError (js ''Image generation failed'') \<in> set (handleGenerate env s)
       \<and> (SetHasApiKey False \<in> set (handleGenerate env s)) = auth_failure err
       \<and> count_list (handleGenerate env s) CallHandleConnectKey
           = (if auth_failure err then 1 else 0)
       \<and> count_list (handleGenerate env s) CallOpenSelectKey
           = (if auth_failure err \<and> host_offers_connect env then 1 else 0)"
    unfolding trace by simp
  from trace rest final show ?thesis by blast
qed

theorem generate_failure_witness:
  "gen_run g0 (handleGenerate \<lparr>aistudio = Some host, request = Throws (Some not_found)\<rparr> g0)
     = g0\<lparr>generatedImages := [], isLoading := False, hasApiKey := True\<rparr>
   \<and> count_list (handleGenerate \<lparr>aistudio = Some host, request = Throws (Some not_found)\<rparr> g0)
        CallHandleConnectKey = 1
   \<and> count_list (handleGenerate \<lparr>aistudio = Some host, request = Throws (Some not_found)\<rparr> g0)
        CallOpenSelectKey = 1
   \<and> gen_run g0 (handleGenerate \<lparr>aistudio = Some host, request = Throws (Some (js ''{}''))\<rparr> g0)
     = g0\<lparr>generatedImages := [], isLoading := False\<rparr>
   \<and> SetHasApiKey False
       \<notin> set (handleGenerate \<lparr>aistudio = Some host, request = Throws (Some (js ''{}''))\<rparr> g0)
   \<and> count_list (handleGenerate \<lparr>aistudio = Some host, request = Throws (Some (js ''{}''))\<rparr> g0)
        CallOpenSelectKey = 0"
proof -
  have 1: "request \<lparr>aistudio = Some host, request = Throws (Some not_found)\<rparr> = Throws (Some not_found)"
    and 2: "request \<lparr>aistudio = Some host, request = Throws (Some (js ''{}''))\<rparr> = Throws (Some (js ''{}''))"
    by simp_all
  have c: "connect_succeeds \<lparr>aistudio = Some host, request = Throws (Some not_found)\<rparr>"
    "host_offers_connect \<lparr>aistudio = Some host, request = Throws (Some not_found)\<rparr>"
    by (simp_all add: connect_succeeds_def host_offers_connect_def host_def)
  note a = generate_failure [OF truthy_prompt_g0 1, THEN conjunct2]
  note b = generate_failure [OF truthy_prompt_g0 2, THEN conjunct2]
  show ?thesis
    using a b auth_failure_not_found auth_failure_other c
    by (simp add: g0_def)
qed

text \<open>
  C10, as stated, fails: without \<open>window.aistudio\<close>, a request that fails with the
  marker in its serialisation sets the key state to missing, and \<open>handleConnectKey\<close>
  leaves it there.
\<close>

theorem no_host_counterexample:
  "aistudio \<lparr>aistudio = None, request = Throws (Some not_found)\<rparr> = None
   \<and> hasApiKey g0
   \<and> \<not> hasApiKey (gen_run g0
         (handleGenerate \<lparr>aistudio = None, request = Throws (Some not_found)\<rparr> g0))
   \<and> \<not> hasApiKey (gen_run (gen_run g0
         (handleGenerate \<lparr>aistudio = None, request = Throws (Some not_found)\<rparr> g0))
         (handleConnectKey \<lparr>aistudio = None, request = Throws (Some not_found)\<rparr>))"
proof -
  have r: "request \<lparr>aistudio = None, request = Throws (Some not_found)\<rparr> = Throws (Some not_found)"
    by simp
  have "gen_run g0 (handleGenerate \<lparr>aistudio = None, request = Throws (Some not_found)\<rparr> g0)
      = g0\<lparr>generatedImages := [], isLoading := False, hasApiKey := False\<rparr>"
    unfolding handleGenerate_throws [OF truthy_prompt_g0 r]
    using auth_failure_not_found
    by (simp add: connect_call_def connect_resume_def gen_run_Cons gen_run_Nil)
  then show ?thesis
    by (simp add: handleConnectKey_def connect_call_def connect_resume_def gen_run_Nil
        g0_def initial_gen_state_def)
qed

text \<open>
  C10, amended. Without \<open>window.aistudio\<close>, the key check on mount and
  \<open>handleConnectKey\<close> do nothing, so they leave the key state as it is: present after
  mount. After \<open>handleGenerate\<close> the key is present exactly when it was present before
  and the call did not fail with the marker in the serialised error.
\<close>

theorem no_host_key_state:
  assumes "aistudio env = None"
  shows "checkApiKey env = [] \<and> handleConnectKey env = []
       \<and> hasApiKey (gen_run initial_gen_state (checkApiKey env))
       \<and> gen_run s (handleConnectKey env) = s
       \<and> hasApiKey (gen_run s (handleGenerate env s))
           = (hasApiKey s \<and> \<not> (truthy (trim (prompt s)) \<and> request_auth_failure (request env)))"
proof -
  have nc: "connect_call env = []" "connect_resume env = []" "\<not> connect_succeeds env"
    using assms by (simp_all add: connect_call_def connect_resume_def connect_succeeds_def)
  have gen: "hasApiKey (gen_run s (handleGenerate env s))
      = (hasApiKey s \<and> \<not> (truthy (trim (prompt s)) \<and> request_auth_failure (request env)))"
  proof (cases "truthy (trim (prompt s))")
    case False
    then show ?thesis by (simp add: handleGenerate_def gen_run_Nil)
  next
    case True
    show ?thesis
    proof (cases "request env")
      case (Responds response)
      then show ?thesis
        using True
        by (simp add: handleGenerate_def gen_run_Cons gen_run_Nil request_auth_failure_def)
    next
      case (Throws err)
      show ?thesis
        unfolding handleGenerate_throws [OF True Throws] using True
        by (cases err)
          (simp_all add: Throws nc gen_run_Cons gen_run_Nil request_auth_failure_def
            auth_failure_def)
    qed
  qed
  show ?thesis
    using assms gen
    by (simp add: checkApiKey_def handleConnectKey_def nc gen_run_Nil initial_gen_state_def)
qed

theorem no_host_key_state_witness:
  "hasApiKey (gen_run initial_gen_state (checkApiKey \<lparr>aistudio = None, request = Throws (Some not_found)\<rparr>))
   \<and> handleConnectKey \<lparr>aistudio = None, request = Throws (Some not_found)\<rparr> = []
   \<and> \<not> hasApiKey (gen_run g0
         (handleGenerate \<lparr>aistudio = None, request = Throws (Some not_found)\<rparr> g0))
   \<and> hasApiKey (gen_run g0
         (handleGenerate \<lparr>aistudio = None, request = Throws (Some (js ''{}''))\<rparr> g0))"
proof -
  have 1: "aistudio \<lparr>aistudio = None, request = Throws (Some not_found)\<rparr> = None"
    and 2: "aistudio \<lparr>aistudio = None, request = Throws (Some (js ''{}''))\<rparr> = None"
    by simp_all
  have k: "hasApiKey g0" by (simp add: g0_def initial_gen_state_def)
  show ?thesis
    using no_host_key_state [OF 1, of g0] no_host_key_state [OF 2, of g0]
      truthy_prompt_g0 auth_failure_not_found auth_failure_other k
    by (simp add: request_auth_failure_def gen_run_Nil initial_gen_state_def)
qed

end
